theory Spec2Isabelle
  imports Main "HOL-Library.Word" "HOL-Library.Multiset" "HOL-Library.Char_ord"
    "HOL-Library.List_Lexorder"
begin

section \<open>The queue of queue.c on an explicit heap\<close>

text \<open>
  The C file implements a queue of strings as a singly linked list of \<^verbatim>\<open>list_ele_t\<close>
  nodes, reached from a \<^verbatim>\<open>queue_t\<close> handle. The functions mutate the nodes through
  pointers, so the model keeps an explicit store of nodes: a pointer is an
  \<open>addr option\<close> (\<open>None\<close> is \<^verbatim>\<open>NULL\<close>), and the store maps the address of each live
  node to its fields. Every function takes the store and returns the new one.

  A function of the model returns an \<open>option\<close>: \<open>None\<close> stands for an execution of
  the C function that has no defined result, because it reads or writes through a pointer
  that is not a live node, reads or writes past the end of a buffer, or never leaves a
  loop.

  An \<^verbatim>\<open>int\<close> is a word of 32 bits, read as a signed number by \<open>sint\<close>: \<^verbatim>\<open>q->size++\<close> at
  \<^verbatim>\<open>INT_MAX\<close> gives \<^verbatim>\<open>INT_MIN\<close>, as the compiled code does.
\<close>

subsection \<open>Data\<close>

type_synonym addr = nat

type_synonym c_int = "32 word"

text \<open>
  Modelled from the spec: the declarations of \<^verbatim>\<open>list_ele_t\<close> and \<^verbatim>\<open>queue_t\<close> are in
  queue.h, which is not among the sources. A node has a payload and a link to the next
  node; a queue has the links to its first and last node and a count of nodes. The
  payload buffer is owned by its node alone, and the model keeps its content (the bytes
  before the terminating NUL) in the node. The count is an \<^verbatim>\<open>int\<close>, the type that
  \<^verbatim>\<open>q_size\<close> returns.
\<close>

record list_ele_t =
  valuep :: string
  nextp :: "addr option"

record queue_t =
  head :: "addr option"
  tail :: "addr option"
  qsize :: c_int

text \<open>
  The store: the live nodes, and the results of the calls of \<^verbatim>\<open>malloc\<close> to come, in
  order. An entry \<open>None\<close> is a call that returns \<^verbatim>\<open>NULL\<close>; an entry \<open>Some a\<close> is a
  call that succeeds, at address \<open>a\<close> when the block is a node. With no entry left,
  \<^verbatim>\<open>malloc\<close> returns \<^verbatim>\<open>NULL\<close>.
\<close>

record heap =
  eles :: "addr \<rightharpoonup> list_ele_t"
  mallocs :: "addr option list"

subsection \<open>The library functions the code calls\<close>

definition NUL :: char where
  "NUL = CHR 0x00"

definition INT_MAX :: int where
  "INT_MAX = 2147483647"

text \<open>\<^verbatim>\<open>malloc(sizeof(list_ele_t))\<close>: a new node, its fields not yet written by the caller.\<close>

definition malloc_ele :: "heap \<Rightarrow> addr option \<times> heap" where
  "malloc_ele h =
     (case mallocs h of
        [] \<Rightarrow> (None, h)
      | r # rs \<Rightarrow>
          (case r of
             None \<Rightarrow> (None, h\<lparr>mallocs := rs\<rparr>)
           | Some a \<Rightarrow>
               if eles h a = None
               then (Some a, h\<lparr>eles := (eles h)(a \<mapsto> \<lparr>valuep = [], nextp = None\<rparr>),
                                mallocs := rs\<rparr>)
               else (None, h\<lparr>mallocs := rs\<rparr>)))"

text \<open>
  \<^verbatim>\<open>malloc(sizeof(char) * len)\<close>: whether the payload buffer was obtained. The product
  is a \<^verbatim>\<open>size_t\<close>: a negative \<open>len\<close> asks for more than half of the address space
  (\<open>2 ^ 63\<close> bytes or more, for a \<^verbatim>\<open>size_t\<close> of 64 bits), which \<^verbatim>\<open>malloc\<close> never gives.
\<close>

definition malloc_str :: "c_int \<Rightarrow> heap \<Rightarrow> bool \<times> heap" where
  "malloc_str len h =
     (case mallocs h of
        [] \<Rightarrow> (False, h)
      | r # rs \<Rightarrow> (r \<noteq> None \<and> 0 \<le> sint len, h\<lparr>mallocs := rs\<rparr>))"

text \<open>\<^verbatim>\<open>malloc(sizeof(queue_t))\<close>.\<close>

definition malloc_queue :: "heap \<Rightarrow> bool \<times> heap" where
  "malloc_queue h =
     (case mallocs h of
        [] \<Rightarrow> (False, h)
      | r # rs \<Rightarrow> (r \<noteq> None, h\<lparr>mallocs := rs\<rparr>))"

text \<open>\<^verbatim>\<open>free\<close> of a node (with its payload buffer).\<close>

definition free_ele :: "addr \<Rightarrow> heap \<Rightarrow> heap" where
  "free_ele a h = h\<lparr>eles := (eles h)(a := None)\<rparr>"

text \<open>
  A \<^verbatim>\<open>char *\<close> argument is the list of the bytes it points to; \<^verbatim>\<open>strlen\<close> counts the
  bytes before the first NUL, and \<^verbatim>\<open>memcpy\<close> of \<open>n\<close> bytes takes the first \<open>n\<close>.
\<close>

definition strlen :: "string \<Rightarrow> nat" where
  "strlen s = length (takeWhile (\<lambda>c. c \<noteq> NUL) s)"

definition memcpy :: "string \<Rightarrow> nat \<Rightarrow> string" where
  "memcpy s n = take n s"

text \<open>
  The conversion of a \<^verbatim>\<open>size_t\<close> to \<^verbatim>\<open>int\<close>, as in \<^verbatim>\<open>int len = strlen(s) + 1\<close>: the
  compiled code keeps the low 32 bits.
\<close>

definition int_of_size :: "nat \<Rightarrow> c_int" where
  "int_of_size n = of_nat n"

text \<open>
  \<^verbatim>\<open>strncpy(dst, src, n)\<close> writes exactly \<open>n\<close> bytes to \<open>dst\<close>: the bytes of the string
  \<open>src\<close>, then NUL bytes when \<open>src\<close> is shorter than \<open>n\<close>. The buffer \<open>dst\<close> is the list of
  its bytes; writing more bytes than it has is a buffer overrun.
\<close>

definition strncpy :: "string \<Rightarrow> string \<Rightarrow> nat \<Rightarrow> string option" where
  "strncpy dst src n =
     (if n \<le> length dst then Some (take n (src @ replicate n NUL) @ drop n dst) else None)"

text \<open>\<^verbatim>\<open>dst[i] = c\<close>.\<close>

definition store_byte :: "string \<Rightarrow> nat \<Rightarrow> char \<Rightarrow> string option" where
  "store_byte dst i c = (if i < length dst then Some (dst[i := c]) else None)"

text \<open>The C string a buffer holds: its bytes before the first NUL.\<close>

definition c_str :: "string \<Rightarrow> string" where
  "c_str buf = takeWhile (\<lambda>c. c \<noteq> NUL) buf"

text \<open>
  \<^verbatim>\<open>strcmp\<close> on the contents of two strings. C fixes the sign of the result only: that of
  the difference of the first two bytes that differ, read as \<^verbatim>\<open>unsigned char\<close>, where the
  terminator of the shorter string is below every byte of the longer one.
\<close>

fun strcmp :: "string \<Rightarrow> string \<Rightarrow> int" where
  "strcmp [] [] = 0"
| "strcmp [] (y # ys) = - 1"
| "strcmp (x # xs) [] = 1"
| "strcmp (x # xs) (y # ys) =
     (if x = y then strcmp xs ys
      else if (of_char x :: nat) < of_char y then - 1 else 1)"

subsection \<open>Construction, insertion, removal, size\<close>

definition q_new :: "heap \<Rightarrow> queue_t option \<times> heap" where
  "q_new h =
     (case malloc_queue h of
        (False, h1) \<Rightarrow> (None, h1)
      | (True, h1) \<Rightarrow> (Some \<lparr>head = None, tail = None, qsize = 0\<rparr>, h1))"

text \<open>
  The three results of an insertion: whether it succeeded, the queue handle and the
  store. When \<open>len\<close> is 0 (the length of \<open>s\<close> plus 1 is a multiple of \<open>2 ^ 32\<close>) and
  \<^verbatim>\<open>malloc\<close> gives a buffer of no bytes, \<^verbatim>\<open>memcpy\<close> is asked for \<open>len - 1\<close> bytes as a
  \<^verbatim>\<open>size_t\<close>, the largest there is: the call overruns the buffer and has no defined
  result. In every other case the new node holds the first \<open>len - 1\<close> bytes of \<open>s\<close>.
\<close>

definition q_insert_head ::
  "queue_t option \<Rightarrow> string \<Rightarrow> heap \<Rightarrow> (bool \<times> queue_t option \<times> heap) option" where
  "q_insert_head qp s h =
     (case qp of
        None \<Rightarrow> Some (False, qp, h)
      | Some q \<Rightarrow>
          (case malloc_ele h of
             (None, h1) \<Rightarrow> Some (False, qp, h1)
           | (Some newh, h1) \<Rightarrow>
               let len = int_of_size (strlen s + 1) in
               (case malloc_str len h1 of
                  (False, h2) \<Rightarrow> Some (False, qp, free_ele newh h2)
                | (True, h2) \<Rightarrow>
                    if len = 0 then None
                    else
                      let h3 = h2\<lparr>eles := (eles h2)(newh \<mapsto>
                                 \<lparr>valuep = memcpy s (nat (sint (len - 1))),
                                  nextp = head q\<rparr>)\<rparr>;
                          q1 = q\<lparr>head := Some newh, qsize := qsize q + 1\<rparr>;
                          q2 = (if tail q1 = None then q1\<lparr>tail := Some newh\<rparr> else q1)
                      in Some (True, Some q2, h3))))"

text \<open>
  \<^verbatim>\<open>q->tail->next = newt\<close> writes through the tail pointer: it has no defined result
  when that is not a live node.
\<close>

definition q_insert_tail ::
  "queue_t option \<Rightarrow> string \<Rightarrow> heap \<Rightarrow> (bool \<times> queue_t option \<times> heap) option" where
  "q_insert_tail qp s h =
     (case qp of
        None \<Rightarrow> Some (False, qp, h)
      | Some q \<Rightarrow>
          (case malloc_ele h of
             (None, h1) \<Rightarrow> Some (False, qp, h1)
           | (Some newt, h1) \<Rightarrow>
               let len = int_of_size (strlen s + 1) in
               (case malloc_str len h1 of
                  (False, h2) \<Rightarrow> Some (False, qp, free_ele newt h2)
                | (True, h2) \<Rightarrow>
                    if len = 0 then None
                    else
                      let h3 = h2\<lparr>eles := (eles h2)(newt \<mapsto>
                                 \<lparr>valuep = memcpy s (nat (sint (len - 1))),
                                  nextp = None\<rparr>)\<rparr>
                      in
                      (case tail q of
                         None \<Rightarrow>
                           Some (True,
                             Some (q\<lparr>tail := Some newt, head := Some newt,
                                     qsize := qsize q + 1\<rparr>), h3)
                       | Some t \<Rightarrow>
                           (case eles h3 t of
                              None \<Rightarrow> None
                            | Some te \<Rightarrow>
                                Some (True,
                                  Some (q\<lparr>tail := Some newt, qsize := qsize q + 1\<rparr>),
                                  h3\<lparr>eles := (eles h3)(t \<mapsto> te\<lparr>nextp := Some newt\<rparr>)\<rparr>))))))"

text \<open>
  The results of a removal: whether it succeeded, the queue handle, the caller's buffer
  and the store. The buffer \<open>sp\<close> is the list of the bytes the caller owns there;
  \<open>bufsize\<close> is a \<^verbatim>\<open>size_t\<close>, a machine word of any width, and \<open>bufsize - 1\<close> wraps.
\<close>

definition q_remove_head ::
  "queue_t option \<Rightarrow> string option \<Rightarrow> 'w::len word \<Rightarrow> heap \<Rightarrow>
     (bool \<times> queue_t option \<times> string option \<times> heap) option" where
  "q_remove_head qp sp bufsize h =
     (case qp of
        None \<Rightarrow> Some (False, qp, sp, h)
      | Some q \<Rightarrow>
          (case head q of
             None \<Rightarrow> Some (False, qp, sp, h)
           | Some tmp \<Rightarrow>
               (case sp of
                  None \<Rightarrow> Some (False, qp, sp, h)
                | Some buf \<Rightarrow>
                    (case eles h tmp of
                       None \<Rightarrow> None
                     | Some e \<Rightarrow>
                         let q1 = q\<lparr>head := nextp e, qsize := qsize q - 1\<rparr>;
                             q2 = (if qsize q1 = 0 then q1\<lparr>tail := None\<rparr> else q1)
                         in
                         (case strncpy buf (valuep e) (unat (bufsize - 1)) of
                            None \<Rightarrow> None
                          | Some b1 \<Rightarrow>
                              (case store_byte b1 (unat (bufsize - 1)) NUL of
                                 None \<Rightarrow> None
                               | Some b2 \<Rightarrow>
                                   Some (True, Some q2, Some b2, free_ele tmp h)))))))"

definition q_size :: "queue_t option \<Rightarrow> c_int" where
  "q_size qp = (case qp of None \<Rightarrow> 0 | Some q \<Rightarrow> qsize q)"

subsection \<open>Reversal\<close>

text \<open>
  The loop of \<^verbatim>\<open>q_reverse\<close>, on its two pointers \<open>l\<close> and \<open>r\<close>:
  \<^verbatim>\<open>while (r) { tmp = r->next; r->next = l; l = r; r = tmp; }\<close>.
  It returns the store and the final \<open>l\<close>.
\<close>

partial_function (option) reverse_loop ::
  "heap \<Rightarrow> addr option \<Rightarrow> addr option \<Rightarrow> (heap \<times> addr option) option" where
  "reverse_loop h l r =
     (case r of
        None \<Rightarrow> Some (h, l)
      | Some a \<Rightarrow>
          (case eles h a of
             None \<Rightarrow> None
           | Some e \<Rightarrow>
               reverse_loop (h\<lparr>eles := (eles h)(a \<mapsto> e\<lparr>nextp := l\<rparr>)\<rparr>) (Some a) (nextp e)))"

definition q_reverse :: "queue_t option \<Rightarrow> heap \<Rightarrow> (queue_t option \<times> heap) option" where
  "q_reverse qp h =
     (case qp of
        None \<Rightarrow> Some (qp, h)
      | Some q \<Rightarrow>
          (case reverse_loop h None (head q) of
             None \<Rightarrow> None
           | Some (h1, l) \<Rightarrow> Some (Some (q\<lparr>tail := head q, head := l\<rparr>), h1)))"

subsection \<open>Sorting\<close>

text \<open>\<^verbatim>\<open>swap_str(&a->value, &b->value)\<close>: the two nodes exchange their payload buffers.\<close>

definition swap_str :: "heap \<Rightarrow> addr \<Rightarrow> addr \<Rightarrow> heap option" where
  "swap_str h a b =
     (case eles h a of
        None \<Rightarrow> None
      | Some ea \<Rightarrow>
          (case eles h b of
             None \<Rightarrow> None
           | Some eb \<Rightarrow>
               Some (h\<lparr>eles := ((eles h)(a \<mapsto> ea\<lparr>valuep := valuep eb\<rparr>))
                                    (b \<mapsto> eb\<lparr>valuep := valuep ea\<rparr>)\<rparr>)))"

text \<open>
  The partition loop of \<^verbatim>\<open>quick_sort\<close>, with pivot \<open>last'\<close> (the \<^verbatim>\<open>last\<close> of the code),
  on its pointers \<open>l\<close>, \<open>r\<close> and \<open>prev\<close>. It returns the store and the final \<open>l\<close> and
  \<open>prev\<close>.
\<close>

partial_function (option) partition_loop ::
  "heap \<Rightarrow> addr \<Rightarrow> addr option \<Rightarrow> addr option \<Rightarrow> addr option \<Rightarrow>
     (heap \<times> addr option \<times> addr option) option" where
  "partition_loop h last' l r prev =
     (if r = Some last' then Some (h, l, prev)
      else
        (case r of
           None \<Rightarrow> None
         | Some ra \<Rightarrow>
             (case eles h ra of
                None \<Rightarrow> None
              | Some re \<Rightarrow>
                  (case eles h last' of
                     None \<Rightarrow> None
                   | Some laste \<Rightarrow>
                       if strcmp (valuep re) (valuep laste) < 0 then
                         (case l of
                            None \<Rightarrow> None
                          | Some la \<Rightarrow>
                              (case swap_str h ra la of
                                 None \<Rightarrow> None
                               | Some h1 \<Rightarrow>
                                   (case eles h1 la of
                                      None \<Rightarrow> None
                                    | Some le \<Rightarrow>
                                        (case eles h1 ra of
                                           None \<Rightarrow> None
                                         | Some re1 \<Rightarrow>
                                             partition_loop h1 last' (nextp le) (nextp re1) l))))
                       else partition_loop h last' l (nextp re) prev))))"

partial_function (option) quick_sort ::
  "heap \<Rightarrow> addr option \<Rightarrow> addr option \<Rightarrow> heap option" where
  "quick_sort h first last' =
     (case first of
        None \<Rightarrow> Some h
      | Some f \<Rightarrow>
          (case last' of
             None \<Rightarrow> Some h
           | Some la \<Rightarrow>
               if f = la then Some h
               else
                 (case eles h la of
                    None \<Rightarrow> None
                  | Some laste \<Rightarrow>
                      if nextp laste = Some f then Some h
                      else
                        Option.bind (partition_loop h la (Some f) (Some f) None)
                          (\<lambda>(h1, l, prev).
                             case l of
                               None \<Rightarrow> None
                             | Some l' \<Rightarrow>
                                 Option.bind (swap_str h1 l' la)
                                   (\<lambda>h2.
                                      Option.bind (quick_sort h2 first prev)
                                        (\<lambda>h3.
                                           case eles h3 l' of
                                             None \<Rightarrow> None
                                           | Some le \<Rightarrow> quick_sort h3 (nextp le) last'))))))"

text \<open>
  The first loop of \<^verbatim>\<open>merge_sort\<close>:
  \<^verbatim>\<open>while (right && right->next) { left = left->next; right = right->next->next; }\<close>.
  It returns the final \<open>left\<close>.
\<close>

partial_function (option) find_half ::
  "heap \<Rightarrow> addr option \<Rightarrow> addr option \<Rightarrow> addr option option" where
  "find_half h left right =
     (case right of
        None \<Rightarrow> Some left
      | Some r \<Rightarrow>
          (case eles h r of
             None \<Rightarrow> None
           | Some re \<Rightarrow>
               (case nextp re of
                  None \<Rightarrow> Some left
                | Some rn \<Rightarrow>
                    (case left of
                       None \<Rightarrow> None
                     | Some l \<Rightarrow>
                         (case eles h l of
                            None \<Rightarrow> None
                          | Some le \<Rightarrow>
                              (case eles h rn of
                                 None \<Rightarrow> None
                               | Some rne \<Rightarrow> find_half h (nextp le) (nextp rne)))))))"

text \<open>
  In the merge loop \<open>head\<close> is a pointer to a pointer: first to the variable of the
  caller that holds the head of the list, then to the \<open>next\<close> field of the node linked
  last.
\<close>

datatype dest = Root | NextOf addr

text \<open>\<^verbatim>\<open>*head = p\<close>, where \<open>root\<close> is the caller's variable.\<close>

definition assign :: "heap \<Rightarrow> addr option \<Rightarrow> dest \<Rightarrow> addr option \<Rightarrow> (heap \<times> addr option) option" where
  "assign h root dst p =
     (case dst of
        Root \<Rightarrow> Some (h, p)
      | NextOf d \<Rightarrow>
          (case eles h d of
             None \<Rightarrow> None
           | Some e \<Rightarrow> Some (h\<lparr>eles := (eles h)(d \<mapsto> e\<lparr>nextp := p\<rparr>)\<rparr>, root)))"

text \<open>
  The second loop of \<^verbatim>\<open>merge_sort\<close> and the assignment after it. It returns the store
  and the caller's variable.
\<close>

partial_function (option) merge_loop ::
  "heap \<Rightarrow> addr option \<Rightarrow> dest \<Rightarrow> addr option \<Rightarrow> addr option \<Rightarrow> (heap \<times> addr option) option" where
  "merge_loop h root dst left right =
     (case left of
        None \<Rightarrow> assign h root dst right
      | Some l \<Rightarrow>
          (case right of
             None \<Rightarrow> assign h root dst left
           | Some r \<Rightarrow>
               (case eles h l of
                  None \<Rightarrow> None
                | Some le \<Rightarrow>
                    (case eles h r of
                       None \<Rightarrow> None
                     | Some re \<Rightarrow>
                         if strcmp (valuep le) (valuep re) < 0 then
                           (case assign h root dst left of
                              None \<Rightarrow> None
                            | Some (h1, root1) \<Rightarrow>
                                (case eles h1 l of
                                   None \<Rightarrow> None
                                 | Some le1 \<Rightarrow> merge_loop h1 root1 (NextOf l) (nextp le1) right))
                         else
                           (case assign h root dst right of
                              None \<Rightarrow> None
                            | Some (h1, root1) \<Rightarrow>
                                (case eles h1 r of
                                   None \<Rightarrow> None
                                 | Some re1 \<Rightarrow> merge_loop h1 root1 (NextOf r) left (nextp re1)))))))"

text \<open>
  \<^verbatim>\<open>merge_sort(&p)\<close>, for a variable \<open>p\<close> of the caller that holds \<open>hp\<close>. It returns the
  store and the final value of \<open>p\<close>.
\<close>

partial_function (option) merge_sort ::
  "heap \<Rightarrow> addr option \<Rightarrow> (heap \<times> addr option) option" where
  "merge_sort h hp =
     (case hp of
        None \<Rightarrow> Some (h, hp)
      | Some a \<Rightarrow>
          (case eles h a of
             None \<Rightarrow> None
           | Some e \<Rightarrow>
               (case nextp e of
                  None \<Rightarrow> Some (h, hp)
                | Some b \<Rightarrow>
                    Option.bind (find_half h hp (nextp e))
                      (\<lambda>left.
                         case left of
                           None \<Rightarrow> None
                         | Some l \<Rightarrow>
                             (case eles h l of
                                None \<Rightarrow> None
                              | Some le \<Rightarrow>
                                  Option.bind
                                    (merge_sort (h\<lparr>eles := (eles h)(l \<mapsto> le\<lparr>nextp := None\<rparr>)\<rparr>) hp)
                                    (\<lambda>(h2, hp2).
                                       Option.bind (merge_sort h2 (nextp le))
                                         (\<lambda>(h3, right3). merge_loop h3 hp2 Root hp2 right3)))))))"

text \<open>The last loop of \<^verbatim>\<open>q_sort\<close>: \<^verbatim>\<open>while (q->tail && q->tail->next) q->tail = q->tail->next;\<close>\<close>

partial_function (option) tail_walk :: "heap \<Rightarrow> addr option \<Rightarrow> addr option option" where
  "tail_walk h t =
     (case t of
        None \<Rightarrow> Some t
      | Some a \<Rightarrow>
          (case eles h a of
             None \<Rightarrow> None
           | Some e \<Rightarrow>
               (case nextp e of
                  None \<Rightarrow> Some t
                | Some b \<Rightarrow> tail_walk h (nextp e))))"

text \<open>
  \<^verbatim>\<open>q_sort\<close> chooses between its two strategies by \<^verbatim>\<open>if (1)\<close>. The model takes the
  condition as a parameter, and \<open>q_sort\<close> is the function as the file has it.
\<close>

definition q_sort_with :: "bool \<Rightarrow> queue_t option \<Rightarrow> heap \<Rightarrow> (queue_t option \<times> heap) option" where
  "q_sort_with use_merge qp h =
     (case qp of
        None \<Rightarrow> Some (qp, h)
      | Some q \<Rightarrow>
          Option.bind
            (if use_merge then merge_sort h (head q)
             else map_option (\<lambda>h1. (h1, head q)) (quick_sort h (head q) (tail q)))
            (\<lambda>(h1, hd1).
               Option.bind (tail_walk h1 (tail q))
                 (\<lambda>t. Some (Some (q\<lparr>head := hd1, tail := t\<rparr>), h1))))"

definition q_sort :: "queue_t option \<Rightarrow> heap \<Rightarrow> (queue_t option \<times> heap) option" where
  "q_sort = q_sort_with True"

section \<open>Example inputs\<close>

definition empty_queue :: queue_t where
  "empty_queue = \<lparr>head = None, tail = None, qsize = 0\<rparr>"

definition heap_of :: "(addr \<times> list_ele_t) list \<Rightarrow> addr option list \<Rightarrow> heap" where
  "heap_of es ms = \<lparr>eles = map_of es, mallocs = ms\<rparr>"

definition ele :: "string \<Rightarrow> addr option \<Rightarrow> list_ele_t" where
  "ele v n = \<lparr>valuep = v, nextp = n\<rparr>"

text \<open>A queue of three nodes: "b", "a", "c".\<close>

definition ex_queue :: queue_t where
  "ex_queue = \<lparr>head = Some 1, tail = Some 3, qsize = 3\<rparr>"

definition ex_heap :: heap where
  "ex_heap = heap_of [(1, ele ''b'' (Some 2)), (2, ele ''a'' (Some 3)), (3, ele ''c'' None)] []"

text \<open>
  A string of \<open>2 ^ 32 - 1\<close> bytes: its length plus 1 is 0 as an \<^verbatim>\<open>int\<close>.
\<close>

definition wrap_string :: string where
  "wrap_string = replicate 4294967295 (CHR ''a'')"

text \<open>A string of \<open>2 ^ 32\<close> bytes, and a buffer of \<open>2 ^ 32 + 1\<close> bytes.\<close>

definition long_string :: string where
  "long_string = replicate 4294967296 (CHR ''a'')"

definition long_buffer :: string where
  "long_buffer = replicate 4294967297 (CHR ''x'')"

text \<open>
  The results of \<open>2 * m\<close> calls of \<^verbatim>\<open>malloc\<close> that all succeed, the nodes at the addresses
  \<open>k\<close>, ..., \<open>k + m - 1\<close>: what \<open>m\<close> insertions ask for.
\<close>

definition fresh_blocks :: "addr \<Rightarrow> nat \<Rightarrow> addr option list" where
  "fresh_blocks k m = concat (map (\<lambda>a. [Some a, Some a]) [k..<k + m])"

section \<open>Vocabulary of the properties\<close>

subsection \<open>Buffers and handles\<close>

text \<open>The bytes of the caller's buffer after \<^verbatim>\<open>strncpy(sp, v, n); sp[n] = 0\<close>.\<close>

definition written :: "string \<Rightarrow> string \<Rightarrow> nat \<Rightarrow> string" where
  "written buf v n = take n v @ replicate (n - length v) NUL @ NUL # drop (Suc n) buf"

text \<open>
  The payload of the node that a successful insertion of \<open>s\<close> makes: the first
  \<open>len - 1\<close> bytes of \<open>s\<close>, for the \<^verbatim>\<open>int len\<close> of the code.
\<close>

definition copied :: "string \<Rightarrow> string" where
  "copied s = memcpy s (nat (sint (int_of_size (strlen s + 1) - 1)))"

text \<open>The queue handle after the head node \<open>e\<close> has been removed.\<close>

definition dequeued :: "queue_t \<Rightarrow> list_ele_t \<Rightarrow> queue_t" where
  "dequeued q e =
     (if qsize q - 1 = 0 then q\<lparr>head := nextp e, qsize := qsize q - 1, tail := None\<rparr>
      else q\<lparr>head := nextp e, qsize := qsize q - 1\<rparr>)"

text \<open>
  An insertion at the tail followed at once by a removal into the buffer \<open>buf\<close>: the two
  return values and the C string the buffer holds at the end.
\<close>

definition insert_then_remove ::
  "queue_t \<Rightarrow> string \<Rightarrow> string \<Rightarrow> 'w::len word \<Rightarrow> heap \<Rightarrow> (bool \<times> bool \<times> string) option" where
  "insert_then_remove q s buf bufsize h =
     (case q_insert_tail (Some q) s h of
        None \<Rightarrow> None
      | Some (ok1, qp1, h1) \<Rightarrow>
          (case q_remove_head qp1 (Some buf) bufsize h1 of
             None \<Rightarrow> None
           | Some (ok2, qp2, sp2, h2) \<Rightarrow>
               Some (ok1, ok2, (case sp2 of None \<Rightarrow> [] | Some out \<Rightarrow> c_str out))))"

subsection \<open>Chains of nodes and the invariants of a queue\<close>

text \<open>
  \<open>path m p as y\<close>: in the nodes \<open>m\<close>, following \<open>next\<close> from the pointer \<open>p\<close> visits
  the live nodes \<open>as\<close>, in this order, and arrives at the pointer \<open>y\<close>.
\<close>

fun path :: "(addr \<rightharpoonup> list_ele_t) \<Rightarrow> addr option \<Rightarrow> addr list \<Rightarrow> addr option \<Rightarrow> bool" where
  "path m p [] y = (p = y)"
| "path m p (a # as) y =
     (p = Some a \<and> (case m a of None \<Rightarrow> False | Some e \<Rightarrow> path m (nextp e) as y))"

text \<open>The payload of the node at an address, and of the nodes of a list.\<close>

definition val_of :: "(addr \<rightharpoonup> list_ele_t) \<Rightarrow> addr \<Rightarrow> string" where
  "val_of m a = (case m a of None \<Rightarrow> [] | Some e \<Rightarrow> valuep e)"

definition vals :: "(addr \<rightharpoonup> list_ele_t) \<Rightarrow> addr list \<Rightarrow> string list" where
  "vals m as = map (val_of m) as"

text \<open>
  \<open>walk m p n\<close> follows \<open>next\<close> from \<open>p\<close> through exactly \<open>n\<close> live nodes and returns them
  if the link of the last one is null (for \<open>n = 0\<close>: if \<open>p\<close> is null). The nodes of a
  queue are those that \<open>walk\<close> finds from its head for its size.
\<close>

fun walk :: "(addr \<rightharpoonup> list_ele_t) \<Rightarrow> addr option \<Rightarrow> nat \<Rightarrow> addr list option" where
  "walk m p 0 = (if p = None then Some [] else None)"
| "walk m p (Suc n) =
     (case p of
        None \<Rightarrow> None
      | Some a \<Rightarrow> (case m a of None \<Rightarrow> None | Some e \<Rightarrow> map_option ((#) a) (walk m (nextp e) n)))"

definition nodes :: "queue_t \<Rightarrow> heap \<Rightarrow> addr list option" where
  "nodes q h =
     (if sint (qsize q) < 0 then None else walk (eles h) (head q) (nat (sint (qsize q))))"

text \<open>
  The invariants of the specification. I1: the size is 0 iff the head is null iff the
  tail is null. I2: the chain from the head has exactly size nodes, the last of them is
  the tail, and its link is null (the head is the first of the size links followed).
  I3: no node occurs twice in the chain.
\<close>

definition I1 :: "queue_t \<Rightarrow> bool" where
  "I1 q = (((qsize q = 0) = (head q = None)) \<and> ((head q = None) = (tail q = None)))"

definition I2 :: "queue_t \<Rightarrow> heap \<Rightarrow> bool" where
  "I2 q h =
     (case nodes q h of
        None \<Rightarrow> False
      | Some as \<Rightarrow> tail q = (if as = [] then None else Some (last as)))"

definition I3 :: "queue_t \<Rightarrow> heap \<Rightarrow> bool" where
  "I3 q h = (case nodes q h of None \<Rightarrow> False | Some as \<Rightarrow> distinct as)"

definition invariants :: "queue_t \<Rightarrow> heap \<Rightarrow> bool" where
  "invariants q h = (I1 q \<and> I2 q h \<and> I3 q h)"

text \<open>The payloads of a queue, read from head to tail.\<close>

definition payloads :: "queue_t \<Rightarrow> heap \<Rightarrow> string list" where
  "payloads q h = (case nodes q h of None \<Rightarrow> [] | Some as \<Rightarrow> vals (eles h) as)"

text \<open>The same, with the list of the nodes named: the form the proofs use.\<close>

definition is_queue :: "queue_t \<Rightarrow> heap \<Rightarrow> addr list \<Rightarrow> bool" where
  "is_queue q h as =
     (path (eles h) (head q) as None \<and> sint (qsize q) = int (length as) \<and>
      tail q = (if as = [] then None else Some (last as)))"


text \<open>A function of the queue, called twice in a row.\<close>

definition twice ::
  "(queue_t option \<Rightarrow> heap \<Rightarrow> (queue_t option \<times> heap) option) \<Rightarrow>
   queue_t option \<Rightarrow> heap \<Rightarrow> (queue_t option \<times> heap) option" where
  "twice f qp h = (case f qp h of None \<Rightarrow> None | Some (qp1, h1) \<Rightarrow> f qp1 h1)"

subsection \<open>Sorted chains\<close>

text \<open>
  The order in which the merge loop links the nodes of two chains, for the payloads
  \<open>v\<close> of the nodes.
\<close>

fun merge_nodes :: "(addr \<Rightarrow> string) \<Rightarrow> addr list \<Rightarrow> addr list \<Rightarrow> addr list" where
  "merge_nodes v [] rs = rs"
| "merge_nodes v (l # ls) [] = l # ls"
| "merge_nodes v (l # ls) (r # rs) =
     (if strcmp (v l) (v r) < 0 then l # merge_nodes v ls (r # rs)
      else r # merge_nodes v (l # ls) rs)"

text \<open>Every adjacent pair of strings compares at most 0.\<close>

fun ascending :: "string list \<Rightarrow> bool" where
  "ascending (x # y # zs) = (strcmp x y \<le> 0 \<and> ascending (y # zs))"
| "ascending zs = True"

text \<open>
  What \<open>*head\<close> is in the merge loop, the condition under which it can be assigned, and
  the node it lies in.
\<close>

definition deref :: "(addr \<rightharpoonup> list_ele_t) \<Rightarrow> addr option \<Rightarrow> dest \<Rightarrow> addr option" where
  "deref m root dst =
     (case dst of Root \<Rightarrow> root | NextOf d \<Rightarrow> (case m d of None \<Rightarrow> None | Some e \<Rightarrow> nextp e))"

definition dest_ok :: "(addr \<rightharpoonup> list_ele_t) \<Rightarrow> dest \<Rightarrow> addr set \<Rightarrow> bool" where
  "dest_ok m dst S = (case dst of Root \<Rightarrow> True | NextOf d \<Rightarrow> d \<notin> S \<and> m d \<noteq> None)"

definition dest_set :: "dest \<Rightarrow> addr set" where
  "dest_set dst = (case dst of Root \<Rightarrow> {} | NextOf d \<Rightarrow> {d})"

text \<open>
  Two stores with the same links: every node is live in both or in neither and has the
  same \<open>next\<close> in both, and the allocator is the same. Only payloads may differ.
\<close>

definition same_links :: "heap \<Rightarrow> heap \<Rightarrow> bool" where
  "same_links h h' =
     (mallocs h' = mallocs h \<and> (\<forall>a. map_option nextp (eles h' a) = map_option nextp (eles h a)))"

subsection \<open>Sequences of calls\<close>

text \<open>
  A call of one of the functions of the queue, with its arguments; \<open>'n\<close> is the type of
  the buffer size. \<open>step\<close> makes the call and returns whether it succeeded (the calls
  that return nothing count as successful), the queue handle and the store. \<open>run\<close>
  makes the calls of a list in order, and returns what each call returned.
\<close>

datatype 'n op =
    Insert_head string
  | Insert_tail string
  | Remove_head "string option" 'n
  | Reverse
  | Sort

fun step :: "'w::len word op \<Rightarrow> queue_t option \<Rightarrow> heap \<Rightarrow> (bool \<times> queue_t option \<times> heap) option" where
  "step (Insert_head s) qp h = q_insert_head qp s h"
| "step (Insert_tail s) qp h = q_insert_tail qp s h"
| "step (Remove_head sp bufsize) qp h =
     map_option (\<lambda>(ok, qp', sp', h'). (ok, qp', h')) (q_remove_head qp sp bufsize h)"
| "step Reverse qp h = map_option (\<lambda>(qp', h'). (True, qp', h')) (q_reverse qp h)"
| "step Sort qp h = map_option (\<lambda>(qp', h'). (True, qp', h')) (q_sort qp h)"

fun run ::
  "'w::len word op list \<Rightarrow> queue_t option \<Rightarrow> heap \<Rightarrow> (bool \<times> queue_t option \<times> heap) list option" where
  "run [] qp h = Some []"
| "run (c # cs) qp h =
     (case step c qp h of
        None \<Rightarrow> None
      | Some (ok, qp', h') \<Rightarrow> map_option ((#) (ok, qp', h')) (run cs qp' h'))"

text \<open>
  The calls with a defined result on every queue that satisfies the invariants: the
  length of the string plus 1, as an \<^verbatim>\<open>int\<close>, is not 0 (so for every string of less than
  \<open>2 ^ 32 - 1\<close> bytes), and a buffer that is not null has at least \<open>bufsize\<close> bytes, with
  \<open>bufsize\<close> at least 1.
\<close>

fun valid_op :: "'w::len word op \<Rightarrow> bool" where
  "valid_op (Insert_head s) = (int_of_size (strlen s + 1) \<noteq> 0)"
| "valid_op (Insert_tail s) = (int_of_size (strlen s + 1) \<noteq> 0)"
| "valid_op (Remove_head sp bufsize) =
     (case sp of None \<Rightarrow> True | Some buf \<Rightarrow> bufsize \<noteq> 0 \<and> unat bufsize \<le> length buf)"
| "valid_op Reverse = True"
| "valid_op Sort = True"

text \<open>
  Counting: the calls that satisfy \<open>P\<close> and succeeded, the calls that satisfy \<open>P\<close>, the
  number that \<^verbatim>\<open>q_size\<close> returns after the last call, and whether the invariants hold
  after every call.
\<close>

fun is_insert :: "'n op \<Rightarrow> bool" where
  "is_insert (Insert_head s) = True"
| "is_insert (Insert_tail s) = True"
| "is_insert c = False"

fun is_remove :: "'n op \<Rightarrow> bool" where
  "is_remove (Remove_head sp bufsize) = True"
| "is_remove c = False"

fun successes :: "('n op \<Rightarrow> bool) \<Rightarrow> 'n op list \<Rightarrow> (bool \<times> queue_t option \<times> heap) list \<Rightarrow> int" where
  "successes P (c # cs) ((ok, r) # tr) = (if P c \<and> ok then 1 else 0) + successes P cs tr"
| "successes P cs tr = 0"

fun last_size :: "queue_t \<Rightarrow> (bool \<times> queue_t option \<times> heap) list \<Rightarrow> int" where
  "last_size q [] = sint (q_size (Some q))"
| "last_size q ((ok, qp, h) # tr) = (case qp of None \<Rightarrow> 0 | Some q' \<Rightarrow> last_size q' tr)"

fun all_invariants :: "(bool \<times> queue_t option \<times> heap) list \<Rightarrow> bool" where
  "all_invariants [] = True"
| "all_invariants ((ok, qp, h) # tr) =
     ((case qp of None \<Rightarrow> False | Some q \<Rightarrow> invariants q h) \<and> all_invariants tr)"


definition calls :: "('n op \<Rightarrow> bool) \<Rightarrow> 'n op list \<Rightarrow> int" where
  "calls P cs = int (length (filter P cs))"

text \<open>
  No insertion of the sequence is called when the size of the queue is \<^verbatim>\<open>INT_MAX\<close>.
\<close>

fun no_overflow :: "'w::len word op list \<Rightarrow> queue_t option \<Rightarrow> heap \<Rightarrow> bool" where
  "no_overflow [] qp h = True"
| "no_overflow (c # cs) qp h =
     ((is_insert c \<longrightarrow> sint (q_size qp) < INT_MAX) \<and>
      (case step c qp h of
         None \<Rightarrow> True
       | Some (ok, qp', h') \<Rightarrow> no_overflow cs qp' h'))"

text \<open>\<open>2 ^ 31\<close> insertions of the empty string at the head.\<close>

definition many_inserts :: "64 word op list" where
  "many_inserts = replicate 2147483648 (Insert_head [])"

text \<open>
  What a caller reads back after a call: the handle and the payloads from head to
  tail; and the payloads after the last call of a sequence.
\<close>

definition read_back :: "(queue_t option \<times> heap) option \<Rightarrow> (queue_t \<times> string list) option" where
  "read_back r =
     (case r of
        None \<Rightarrow> None
      | Some (qp, h) \<Rightarrow> (case qp of None \<Rightarrow> None | Some q \<Rightarrow> Some (q, payloads q h)))"

definition final_payloads :: "(bool \<times> queue_t option \<times> heap) list option \<Rightarrow> string list option" where
  "final_payloads r =
     (case r of
        None \<Rightarrow> None
      | Some tr \<Rightarrow>
          (case rev tr of
             [] \<Rightarrow> None
           | (ok, qp, h) # rest \<Rightarrow> map_option (\<lambda>q. payloads q h) qp))"

text \<open>
  The second scenario of the specification: two insertions at the head, a reversal and
  two removals into a buffer of 8 bytes; the C strings read from the buffer.
\<close>

definition reverse_scenario :: "heap \<Rightarrow> (string \<times> string) option" where
  "reverse_scenario h =
     (case q_insert_head (Some empty_queue) ''a'' h of
        None \<Rightarrow> None
      | Some (ok1, qp1, h1) \<Rightarrow>
     (case q_insert_head qp1 ''b'' h1 of
        None \<Rightarrow> None
      | Some (ok2, qp2, h2) \<Rightarrow>
     (case q_reverse qp2 h2 of
        None \<Rightarrow> None
      | Some (qpr, hr) \<Rightarrow>
     (case q_remove_head qpr (Some ''xxxxxxxx'') (8 :: 64 word) hr of
        None \<Rightarrow> None
      | Some (ok4, qp4, sp4, h4) \<Rightarrow>
     (case q_remove_head qp4 (Some ''xxxxxxxx'') (8 :: 64 word) h4 of
        None \<Rightarrow> None
      | Some (ok5, qp5, sp5, h5) \<Rightarrow>
          Some (case sp4 of None \<Rightarrow> [] | Some b \<Rightarrow> c_str b,
                case sp5 of None \<Rightarrow> [] | Some b \<Rightarrow> c_str b))))))"

section \<open>Insertion and removal\<close>

subsection \<open>The arithmetic of \<^verbatim>\<open>int\<close>\<close>

lemma sint_range: "- 2147483648 \<le> sint (x :: c_int) \<and> sint x \<le> 2147483647"
  using sint_ge [of x] sint_lt [of x] by simp

lemma sint_inc: "sint (x :: c_int) < INT_MAX \<Longrightarrow> sint (x + 1) = sint x + 1"
  using sint_range [of x]
  by (simp add: INT_MAX_def sint_word_ariths signed_take_bit_int_eq_self)

lemma sint_dec: "0 < sint (x :: c_int) \<Longrightarrow> sint (x - 1) = sint x - 1"
  using sint_range [of x] by (simp add: sint_word_ariths signed_take_bit_int_eq_self)

lemma sint_inc_max: "sint (x :: c_int) = INT_MAX \<Longrightarrow> sint (x + 1) = - INT_MAX - 1"
  by (simp add: INT_MAX_def sint_word_ariths)

lemma sint_eq_0: "(sint (x :: c_int) = 0) = (x = 0)"
  by (metis sint_0 signed_word_eqI)

lemma sint_eq_1: "(sint (x :: c_int) = 1) = (x = 1)"
proof
  assume "sint x = 1"
  then have "sint x = sint (1 :: c_int)" by simp
  then show "x = 1" by (rule signed_word_eqI)
qed simp

lemma sint_int_of_size: "int n \<le> INT_MAX \<Longrightarrow> sint (int_of_size n) = int n"
  by (simp add: int_of_size_def INT_MAX_def signed_of_nat signed_take_bit_int_eq_self)

lemma sint_int_of_size_mod:
  "sint (int_of_size n) = (int n + 2147483648) mod 4294967296 - 2147483648"
  by (simp add: int_of_size_def signed_of_nat signed_take_bit_eq_take_bit_shift
      take_bit_eq_mod)

lemma sint_int_of_size_pos:
  assumes "n \<le> 4294967296" and "0 < sint (int_of_size n)"
  shows "sint (int_of_size n) = int n"
proof -
  note s = sint_int_of_size_mod[of n]
  from assms(1) have a: "int n \<le> 4294967296" "0 \<le> int n" by simp_all
  show ?thesis
  proof (cases "int n < 2147483648")
    case True
    with a have "(int n + 2147483648) mod 4294967296 = int n + 2147483648"
      by (intro mod_pos_pos_trivial) simp_all
    then show ?thesis by (simp add: s)
  next
    case False
    show ?thesis
    proof (cases "int n = 4294967296")
      case True
      then have "sint (int_of_size n) = 0" unfolding s by simp
      with assms(2) show ?thesis by simp
    next
      case False
      with a \<open>\<not> int n < 2147483648\<close>
      have b: "0 \<le> int n - 2147483648" "int n - 2147483648 < 4294967296" by simp_all
      have "int n + 2147483648 = (int n - 2147483648) + 4294967296" by simp
      then have "(int n + 2147483648) mod 4294967296
          = ((int n - 2147483648) + 4294967296) mod 4294967296"
        by (rule arg_cong)
      also have "\<dots> = (int n - 2147483648) mod 4294967296"
        by (rule mod_add_self2)
      also have "\<dots> = int n - 2147483648" using b by (intro mod_pos_pos_trivial)
      finally have "sint (int_of_size n) = int n - 4294967296" by (simp add: s)
      with assms(2) a False show ?thesis by simp
    qed
  qed
qed

lemma sint_positive: "0 \<le> sint (x :: c_int) \<Longrightarrow> x \<noteq> 0 \<Longrightarrow> 0 < sint x"
  using sint_eq_0[of x] by simp

subsection \<open>The library functions\<close>

lemma take_strlen: "take (strlen s) s = c_str s"
  by (simp add: strlen_def c_str_def takeWhile_eq_take[symmetric])

lemma strlen_c_str: "strlen s = length (c_str s)"
  by (simp add: strlen_def c_str_def)

lemma c_str_pad: "c_str (xs @ replicate k NUL @ NUL # ys) = c_str xs"
proof (induction xs)
  case Nil
  show ?case by (cases k) (simp_all add: c_str_def)
next
  case (Cons x xs)
  then show ?case by (simp add: c_str_def)
qed

lemma c_str_idem: "NUL \<notin> set xs \<Longrightarrow> c_str xs = xs"
  by (induction xs) (auto simp: c_str_def)

lemma c_str_no_NUL: "NUL \<notin> set (c_str xs)"
  by (induction xs) (auto simp: c_str_def)

lemma copied_short:
  assumes "strlen s < 4294967296" and "0 < sint (int_of_size (strlen s + 1))"
  shows "copied s = c_str s"
proof -
  from assms have "sint (int_of_size (strlen s + 1)) = int (strlen s) + 1"
    using sint_int_of_size_pos[of "strlen s + 1"] by simp
  then have "sint (int_of_size (strlen s + 1) - 1) = int (strlen s)"
    using sint_dec[of "int_of_size (strlen s + 1)"] by simp
  then show ?thesis by (simp add: copied_def memcpy_def take_strlen)
qed

lemma strlen_replicate: "c \<noteq> NUL \<Longrightarrow> strlen (replicate n c) = n"
  by (induction n) (simp_all add: strlen_def)

lemma strlen_long_string: "strlen long_string = 4294967296"
  unfolding long_string_def by (rule strlen_replicate) (simp add: NUL_def)

lemma c_str_long_string: "c_str long_string = long_string"
  unfolding long_string_def by (rule c_str_idem) (simp add: NUL_def)

lemma length_long_buffer: "length long_buffer = 4294967297"
  unfolding long_buffer_def by (rule length_replicate)

lemma malloc_ele_None: "malloc_ele h = (None, h1) \<Longrightarrow> eles h1 = eles h"
  by (auto simp: malloc_ele_def split: list.splits option.splits if_splits)

lemma malloc_ele_Some:
  "malloc_ele h = (Some a, h1) \<Longrightarrow>
     eles h a = None \<and> eles h1 = (eles h)(a \<mapsto> \<lparr>valuep = [], nextp = None\<rparr>)"
  by (auto simp: malloc_ele_def split: list.splits option.splits if_splits)

lemma malloc_str_eles: "malloc_str n h = (b, h1) \<Longrightarrow> eles h1 = eles h"
  by (auto simp: malloc_str_def split: list.splits)

lemma malloc_str_True: "malloc_str n h = (True, h1) \<Longrightarrow> 0 \<le> sint n \<and> eles h1 = eles h"
  by (auto simp: malloc_str_def split: list.splits)

lemma strncpy_store:
  "n < length buf \<Longrightarrow>
   strncpy buf v n = Some (take n (v @ replicate n NUL) @ drop n buf) \<and>
   store_byte (take n (v @ replicate n NUL) @ drop n buf) n NUL = Some (written buf v n)"
  by (auto simp: strncpy_def store_byte_def written_def list_update_append min_def
           upd_conv_take_nth_drop  take_replicate)

lemma strncpy_store_None:
  "\<not> n < length buf \<Longrightarrow>
   (case strncpy buf v n of None \<Rightarrow> None | Some b1 \<Rightarrow> store_byte b1 n NUL) = None"
  by (auto simp: strncpy_def store_byte_def split: option.splits)

lemma c_str_written: "c_str (written buf v n) = c_str (take n v)"
  by (simp add: written_def c_str_pad)


lemma unat_minus_one_less:
  fixes bufsize :: "'w::len word"
  shows "n < unat bufsize \<Longrightarrow> unat (bufsize - 1) = unat bufsize - 1"
  by (metis less_nat_zero_code unat_0 unat_minus_one)

subsection \<open>Failed insertions\<close>

lemma insert_head_False:
  assumes "q_insert_head qp s h = Some (False, qp', h')"
  shows "qp' = qp \<and> eles h' = eles h \<and>
         (qp = None \<or> fst (malloc_ele h) = None \<or>
          (\<exists>a h1. malloc_ele h = (Some a, h1) \<and> \<not> fst (malloc_str (int_of_size (strlen s + 1)) h1)
              \<and> eles h' a = None))"
proof (cases qp)
  case None
  with assms show ?thesis by (simp add: q_insert_head_def)
next
  case (Some q)
  obtain r h1 where m: "malloc_ele h = (r, h1)" by (cases "malloc_ele h")
  show ?thesis
  proof (cases r)
    case None
    with assms Some m show ?thesis
      by (auto simp: q_insert_head_def dest: malloc_ele_None)
  next
    case (Some a)
    note ra = this
    obtain b h2 where s: "malloc_str (int_of_size (strlen s + 1)) h1 = (b, h2)"
      by (cases "malloc_str (int_of_size (strlen s + 1)) h1")
    from malloc_ele_Some[OF m[unfolded ra]] malloc_str_eles[OF s]
    have e: "eles h a = None" "eles h2 = (eles h)(a \<mapsto> \<lparr>valuep = [], nextp = None\<rparr>)" by auto
    from assms \<open>qp = Some q\<close> m ra s have "\<not> b \<and> qp' = qp \<and> h' = free_ele a h2"
      by (cases b) (auto simp: q_insert_head_def Let_def split: if_splits)
    with e m ra s show ?thesis
      by (auto simp: free_ele_def)
  qed
qed

lemma insert_tail_False:
  assumes "q_insert_tail qp s h = Some (False, qp', h')"
  shows "qp' = qp \<and> eles h' = eles h \<and>
         (qp = None \<or> fst (malloc_ele h) = None \<or>
          (\<exists>a h1. malloc_ele h = (Some a, h1) \<and> \<not> fst (malloc_str (int_of_size (strlen s + 1)) h1)
              \<and> eles h' a = None))"
proof (cases qp)
  case None
  with assms show ?thesis by (simp add: q_insert_tail_def)
next
  case (Some q)
  obtain r h1 where m: "malloc_ele h = (r, h1)" by (cases "malloc_ele h")
  show ?thesis
  proof (cases r)
    case None
    with assms Some m show ?thesis
      by (auto simp: q_insert_tail_def dest: malloc_ele_None)
  next
    case (Some a)
    note ra = this
    obtain b h2 where s: "malloc_str (int_of_size (strlen s + 1)) h1 = (b, h2)"
      by (cases "malloc_str (int_of_size (strlen s + 1)) h1")
    from malloc_ele_Some[OF m[unfolded ra]] malloc_str_eles[OF s]
    have e: "eles h a = None" "eles h2 = (eles h)(a \<mapsto> \<lparr>valuep = [], nextp = None\<rparr>)" by auto
    from assms \<open>qp = Some q\<close> m ra s have "\<not> b \<and> qp' = qp \<and> h' = free_ele a h2"
      by (cases b) (auto simp: q_insert_tail_def Let_def split: if_splits option.splits)
    with e m ra s show ?thesis
      by (auto simp: free_ele_def)
  qed
qed

text \<open>
  Claim C6. An insertion at the head or at the tail that returns false leaves the queue
  handle (head, tail and size) and every node (payloads and links) as they were. It
  returns false only for a null queue reference, a failed allocation of the node, or a
  failed allocation of the payload (as for every string whose length plus 1 is negative
  as an \<^verbatim>\<open>int\<close>); in the last case the node that was allocated is no longer live when
  the call returns.
\<close>

theorem insert_failure_atomic:
  assumes "ins = q_insert_head \<or> ins = q_insert_tail"
    and "ins qp s h = Some (False, qp', h')"
  shows "qp' = qp \<and> eles h' = eles h \<and>
         (qp = None \<or> fst (malloc_ele h) = None \<or>
          (\<exists>a h1. malloc_ele h = (Some a, h1) \<and> \<not> fst (malloc_str (int_of_size (strlen s + 1)) h1)
             \<and> eles h' a = None))"
  using assms insert_head_False insert_tail_False by blast

theorem insert_failure_atomic_witness:
  "(q_insert_tail = q_insert_head \<or> q_insert_tail = q_insert_tail) \<and>
   q_insert_tail (Some empty_queue) ''a'' (heap_of [] [Some 1, None])
     = Some (False, Some empty_queue, heap_of [] []) \<and>
   eles (heap_of [] []) = eles (heap_of [] [Some 1, None]) \<and>
   (\<exists>a h1. malloc_ele (heap_of [] [Some 1, None]) = (Some a, h1)
       \<and> \<not> fst (malloc_str (int_of_size (strlen ''a'' + 1)) h1) \<and> eles (heap_of [] []) a = None)"
proof -
  have r: "q_insert_tail (Some empty_queue) ''a'' (heap_of [] [Some 1, None])
     = Some (False, Some empty_queue, heap_of [] [])"
    by (simp add: q_insert_tail_def malloc_ele_def malloc_str_def free_ele_def heap_of_def
        empty_queue_def int_of_size_def strlen_def NUL_def Let_def)
  from insert_failure_atomic[where ins = q_insert_tail, OF _ r] r show ?thesis
    by (simp add: heap_of_def malloc_ele_def)
qed

subsection \<open>Successful insertions\<close>

lemma insert_tail_True_empty:
  assumes "tail q = None" "q_insert_tail (Some q) s h = Some (True, qp1, h1)"
  shows "\<exists>a. eles h a = None \<and> 0 < sint (int_of_size (strlen s + 1)) \<and>
     qp1 = Some (q\<lparr>tail := Some a, head := Some a, qsize := qsize q + 1\<rparr>) \<and>
     eles h1 = (eles h)(a \<mapsto> \<lparr>valuep = copied s, nextp = None\<rparr>)"
  using assms
  by (auto simp: q_insert_tail_def Let_def copied_def
       split: prod.splits option.splits if_splits bool.splits
       dest!: malloc_ele_Some malloc_str_True intro: sint_positive)

lemma insert_tail_True_live:
  assumes "tail q = Some t" "eles h t = Some te"
    "q_insert_tail (Some q) s h = Some (True, qp1, h1)"
  shows "\<exists>a. eles h a = None \<and> 0 < sint (int_of_size (strlen s + 1)) \<and>
     qp1 = Some (q\<lparr>tail := Some a, qsize := qsize q + 1\<rparr>) \<and>
     eles h1 = (eles h)(a \<mapsto> \<lparr>valuep = copied s, nextp = None\<rparr>, t \<mapsto> te\<lparr>nextp := Some a\<rparr>)"
  using assms
  by (auto simp: q_insert_tail_def Let_def copied_def
       split: prod.splits option.splits if_splits bool.splits
       dest!: malloc_ele_Some malloc_str_True intro: sint_positive)

lemma insert_head_True:
  assumes "q_insert_head (Some q) s h = Some (True, qp1, h1)"
  shows "\<exists>a. eles h a = None \<and> 0 < sint (int_of_size (strlen s + 1)) \<and>
     qp1 = Some (if tail q = None then q\<lparr>head := Some a, qsize := qsize q + 1, tail := Some a\<rparr>
                 else q\<lparr>head := Some a, qsize := qsize q + 1\<rparr>) \<and>
     eles h1 = (eles h)(a \<mapsto> \<lparr>valuep = copied s, nextp = head q\<rparr>)"
  using assms
  by (auto simp: q_insert_head_def Let_def copied_def
       split: prod.splits option.splits if_splits bool.splits
       dest!: malloc_ele_Some malloc_str_True intro: sint_positive)

subsection \<open>Removal\<close>

lemma remove_head_False_iff:
  fixes bufsize :: "'w::len word"
  shows "(q_remove_head qp sp bufsize h = Some (False, qp', sp', h')) =
         ((qp = None \<or> (\<exists>q. qp = Some q \<and> head q = None) \<or> sp = None)
          \<and> qp' = qp \<and> sp' = sp \<and> h' = h)"
  by (auto simp: q_remove_head_def Let_def split: option.splits)

lemma remove_head_live:
  fixes bufsize :: "'w::len word"
  assumes "head q = Some a" "eles h a = Some e"
  shows "q_remove_head (Some q) (Some buf) bufsize h =
     (if unat (bufsize - 1) < length buf
      then Some (True, Some (dequeued q e),
             Some (written buf (valuep e) (unat (bufsize - 1))), free_ele a h)
      else None)"
proof (cases "unat (bufsize - 1) < length buf")
  case True
  from strncpy_store[OF True, of "valuep e"] assms True show ?thesis
    by (simp add: q_remove_head_def Let_def dequeued_def)
next
  case False
  from strncpy_store_None[OF False, of "valuep e"] assms False show ?thesis
    by (auto simp add: q_remove_head_def Let_def split: option.splits)
qed





subsection \<open>The capacity of the buffer\<close>

text \<open>
  Claim C10. \<^verbatim>\<open>q_remove_head\<close> has no check of the capacity: on a queue with a live
  head node and a buffer that is not null it never returns false, whatever \<open>bufsize\<close> is.
  The number of bytes copied and the index of the terminator are both \<open>bufsize - 1\<close> in
  the arithmetic of the machine word: for \<open>bufsize = 0\<close> both are \<open>2 ^ w - 1\<close>, and the
  call has a defined result only if the buffer has more than \<open>2 ^ w - 1\<close> bytes; for
  \<open>bufsize \<ge> 1\<close> both are one less than the capacity.
\<close>

theorem remove_head_capacity_unchecked:
  fixes bufsize :: "'w::len word"
  assumes "head q = Some a" and "eles h a = Some e"
  shows
   "q_remove_head (Some q) (Some buf) bufsize h \<noteq> Some (False, qp', sp', h') \<and>
    q_remove_head (Some q) (Some buf) bufsize h =
      (if unat (bufsize - 1) < length buf
       then Some (True, Some (dequeued q e),
              Some (written buf (valuep e) (unat (bufsize - 1))), free_ele a h)
       else None) \<and>
    unat ((0 :: 'w word) - 1) = 2 ^ LENGTH('w) - 1 \<and>
    q_remove_head (Some q) (Some buf) (0 :: 'w word) h =
      (if 2 ^ LENGTH('w) - 1 < length buf
       then Some (True, Some (dequeued q e),
              Some (written buf (valuep e) (2 ^ LENGTH('w) - 1)), free_ele a h)
       else None) \<and>
    (if bufsize = 0 then unat (bufsize - 1) = 2 ^ LENGTH('w) - 1
     else unat (bufsize - 1) = unat bufsize - 1 \<and> unat (bufsize - 1) < unat bufsize)"
proof -
  have z: "unat ((0 :: 'w word) - 1) = 2 ^ LENGTH('w) - 1"
    by (simp add: unsigned_minus_1_eq_mask mask_eq_exp_minus_1)
  have nz: "bufsize \<noteq> 0 \<Longrightarrow> unat (bufsize - 1) = unat bufsize - 1 \<and> unat (bufsize - 1) < unat bufsize"
    by (metis One_nat_def diff_less unat_minus_one unat_gt_0 zero_less_one)
  show ?thesis
    using assms z nz remove_head_live[OF assms, of buf bufsize]
      remove_head_live[OF assms, of buf "0 :: 'w word"]
    by (auto simp: remove_head_False_iff)
qed

theorem remove_head_capacity_unchecked_witness:
  "head \<lparr>head = Some 1, tail = Some 1, qsize = 1\<rparr> = Some 1 \<and>
   eles (heap_of [(1, ele ''hello'' None)] []) 1 = Some (ele ''hello'' None) \<and>
   q_remove_head (Some \<lparr>head = Some 1, tail = Some 1, qsize = 1\<rparr>) (Some ''xxxx'') (0 :: 64 word)
     (heap_of [(1, ele ''hello'' None)] []) = None \<and>
   unat ((0 :: 64 word) - 1) = 18446744073709551615"
  using remove_head_capacity_unchecked[of "\<lparr>head = Some 1, tail = Some 1, qsize = 1\<rparr>" 1
      "heap_of [(1, ele ''hello'' None)] []" "ele ''hello'' None" "''xxxx''" "0 :: 64 word"]
  by (simp add: heap_of_def ele_def)


subsection \<open>Insertion, then removal\<close>

text \<open>
  Claim C7, as stated, fails, in three ways. The value comes back whole only if the
  buffer is large enough: inserting "hello" into an empty queue and removing it into a
  buffer of capacity 3 returns true twice and leaves "he" in the buffer. The insertion
  fails when \<^verbatim>\<open>malloc\<close> does: then both calls return false and the buffer is as it was.
  And \<^verbatim>\<open>int len\<close> keeps the low 32 bits of the length plus 1: for a string of \<open>2 ^ 32\<close>
  bytes \<open>len\<close> is 1, the node holds the empty string, and both calls return true with the
  empty string in a buffer that is larger than the value. (A buffer of fewer bytes than
  the capacity is overrun: the removal has no defined result.)
\<close>

theorem roundtrip_fails:
  "insert_then_remove empty_queue ''hello'' ''xxx'' (3 :: 64 word) (heap_of [] [Some 1, Some 2])
     = Some (True, True, ''he'') \<and> ''he'' \<noteq> ''hello'' \<and> c_str ''hello'' = ''hello'' \<and>
   insert_then_remove empty_queue ''hello'' ''xxxxxx'' (6 :: 64 word) (heap_of [] [None])
     = Some (False, False, ''xxxxxx'') \<and>
   insert_then_remove empty_queue long_string long_buffer (4294967297 :: 64 word)
       (heap_of [] [Some 1, Some 2])
     = Some (True, True, []) \<and>
   c_str long_string = long_string \<and> long_string \<noteq> [] \<and>
   strlen long_string < unat (4294967297 :: 64 word) \<and>
   unat (4294967297 :: 64 word) \<le> length long_buffer \<and>
   insert_then_remove empty_queue ''hello'' ''xxx'' (8 :: 64 word) (heap_of [] [Some 1, Some 2])
     = None"
proof -
  have 1: "insert_then_remove empty_queue ''hello'' ''xxx'' (3 :: 64 word)
       (heap_of [] [Some 1, Some 2]) = Some (True, True, ''he'')"
    by (simp add: insert_then_remove_def q_insert_tail_def q_remove_head_def empty_queue_def
        heap_of_def malloc_ele_def malloc_str_def strlen_def NUL_def int_of_size_def Let_def
        memcpy_def strncpy_def store_byte_def c_str_def free_ele_def)
  have 2: "insert_then_remove empty_queue ''hello'' ''xxxxxx'' (6 :: 64 word) (heap_of [] [None])
     = Some (False, False, ''xxxxxx'')"
    by (simp add: insert_then_remove_def q_insert_tail_def q_remove_head_def empty_queue_def
        heap_of_def malloc_ele_def c_str_def NUL_def)
  have i: "q_insert_tail (Some empty_queue) long_string (heap_of [] [Some 1, Some 2])
     = Some (True, Some \<lparr>head = Some 1, tail = Some 1, qsize = 1\<rparr>,
             heap_of [(1, ele [] None)] [])"
    by (simp add: q_insert_tail_def malloc_ele_def malloc_str_def heap_of_def ele_def
        empty_queue_def strlen_long_string int_of_size_def Let_def memcpy_def)
  have r: "q_remove_head (Some \<lparr>head = Some 1, tail = Some 1, qsize = 1\<rparr>) (Some long_buffer)
       (4294967297 :: 64 word) (heap_of [(1, ele [] None)] [])
     = Some (True, Some (dequeued \<lparr>head = Some 1, tail = Some 1, qsize = 1\<rparr> (ele [] None)),
         Some (written long_buffer [] 4294967296), free_ele 1 (heap_of [(1, ele [] None)] []))"
    using remove_head_live[of "\<lparr>head = Some 1, tail = Some 1, qsize = 1\<rparr>" 1
        "heap_of [(1, ele [] None)] []" "ele [] None" long_buffer "4294967297 :: 64 word"]
    by (simp add: heap_of_def ele_def length_long_buffer)
  have 3: "insert_then_remove empty_queue long_string long_buffer (4294967297 :: 64 word)
       (heap_of [] [Some 1, Some 2]) = Some (True, True, [])"
    using i r by (simp add: insert_then_remove_def c_str_written c_str_idem)
  have 4: "long_string \<noteq> []"
    using strlen_long_string by (auto simp: strlen_def)
  have 5: "c_str ''hello'' = ''hello''"
    by (simp add: c_str_def NUL_def)
  have 6: "insert_then_remove empty_queue ''hello'' ''xxx'' (8 :: 64 word)
       (heap_of [] [Some 1, Some 2]) = None"
    by (simp add: insert_then_remove_def q_insert_tail_def q_remove_head_def empty_queue_def
        heap_of_def malloc_ele_def malloc_str_def strlen_def NUL_def int_of_size_def Let_def
        memcpy_def strncpy_def)
  from 1 2 3 4 5 6 show ?thesis
    by (simp add: c_str_long_string strlen_long_string length_long_buffer)
qed

text \<open>
  Claim C7, amended. For a value of less than \<open>2 ^ 32\<close> bytes: when \<^verbatim>\<open>q_insert_tail\<close>
  on an empty queue returns true, and the buffer is not null and its capacity is above
  the length of the value, the removal that follows returns true and leaves in the
  buffer the value that was inserted, byte for byte (the bytes of the argument before
  its terminator).
\<close>

theorem insert_tail_remove_head_roundtrip:
  fixes bufsize :: "'w::len word"
  assumes "head q = None" and "tail q = None"
    and "strlen s < 4294967296"
    and "q_insert_tail (Some q) s h = Some (True, qp1, h1)"
    and "strlen s < unat bufsize" and "unat bufsize \<le> length buf"
  shows "insert_then_remove q s buf bufsize h = Some (True, True, c_str s) \<and>
         (NUL \<notin> set s \<longrightarrow> insert_then_remove q s buf bufsize h = Some (True, True, s))"
proof -
  from insert_tail_True_empty[OF assms(2,4)] obtain a where
    p: "0 < sint (int_of_size (strlen s + 1))"
    and a0: "qp1 = Some (q\<lparr>tail := Some a, head := Some a, qsize := qsize q + 1\<rparr>)"
       "eles h1 = (eles h)(a \<mapsto> \<lparr>valuep = copied s, nextp = None\<rparr>)" by blast
  from a0 copied_short[OF assms(3) p] have
    a: "qp1 = Some (q\<lparr>tail := Some a, head := Some a, qsize := qsize q + 1\<rparr>)"
       "eles h1 = (eles h)(a \<mapsto> \<lparr>valuep = c_str s, nextp = None\<rparr>)" by simp_all
  have n: "unat (bufsize - 1) = unat bufsize - 1"
    using assms(5) by (rule unat_minus_one_less)
  have l: "unat (bufsize - 1) < length buf" using n assms(5,6) by simp
  have "length (c_str s) \<le> unat (bufsize - 1)" using n assms(5) by (simp add: strlen_c_str)
  then have c: "c_str (take (unat (bufsize - 1)) (c_str s)) = c_str s"
    by (simp add: c_str_idem c_str_no_NUL)
  have "insert_then_remove q s buf bufsize h = Some (True, True, c_str s)"
    unfolding insert_then_remove_def assms(4) a(1)
    using remove_head_live[of "q\<lparr>tail := Some a, head := Some a, qsize := qsize q + 1\<rparr>" a h1
        "\<lparr>valuep = c_str s, nextp = None\<rparr>" buf bufsize] l c a(2)
    by (simp add: c_str_written)
  then show ?thesis by (simp add: c_str_idem)
qed

theorem insert_tail_remove_head_roundtrip_witness:
  "head empty_queue = None \<and> tail empty_queue = None \<and>
   strlen ''hello'' < 4294967296 \<and>
   q_insert_tail (Some empty_queue) ''hello'' (heap_of [] [Some 1, Some 2])
     = Some (True, Some \<lparr>head = Some 1, tail = Some 1, qsize = 1\<rparr>,
             heap_of [(1, ele ''hello'' None)] []) \<and>
   strlen ''hello'' < unat (6 :: 64 word) \<and> unat (6 :: 64 word) \<le> length ''xxxxxxxx'' \<and>
   NUL \<notin> set ''hello'' \<and>
   insert_then_remove empty_queue ''hello'' ''xxxxxxxx'' (6 :: 64 word)
      (heap_of [] [Some 1, Some 2]) = Some (True, True, ''hello'')"
proof -
  have r: "q_insert_tail (Some empty_queue) ''hello'' (heap_of [] [Some 1, Some 2])
     = Some (True, Some \<lparr>head = Some 1, tail = Some 1, qsize = 1\<rparr>,
             heap_of [(1, ele ''hello'' None)] [])"
    by (simp add: q_insert_tail_def malloc_ele_def malloc_str_def heap_of_def ele_def
        empty_queue_def int_of_size_def strlen_def NUL_def Let_def memcpy_def)
  have s: "strlen ''hello'' < unat (6 :: 64 word)" "unat (6 :: 64 word) \<le> length ''xxxxxxxx''"
    "NUL \<notin> set ''hello''" "strlen ''hello'' < 4294967296"
    by (simp_all add: strlen_def NUL_def)
  from insert_tail_remove_head_roundtrip[OF _ _ s(4) r s(1,2)] r s show ?thesis
    by (simp add: empty_queue_def c_str_def NUL_def)
qed

section \<open>Chains of nodes\<close>

lemma path_None [simp]: "path m None as y = (as = [] \<and> y = None)"
  by (cases as) auto

lemma path_append:
  "path m p (as @ bs) y = (\<exists>z. path m p as z \<and> path m z bs y)"
  by (induction as arbitrary: p) (auto split: option.splits)

lemma path_live: "path m p as y \<Longrightarrow> a \<in> set as \<Longrightarrow> m a \<noteq> None"
  by (induction as arbitrary: p) (auto split: option.splits)

lemma path_cong:
  "(\<And>a. a \<in> set as \<Longrightarrow> m' a = m a) \<Longrightarrow> path m' p as y = path m p as y"
  by (induction as arbitrary: p) (auto split: option.splits)

lemma path_links_cong:
  "(\<And>a. a \<in> set as \<Longrightarrow> map_option nextp (m' a) = map_option nextp (m a)) \<Longrightarrow>
     path m' p as y = path m p as y"
proof (induction as arbitrary: p)
  case Nil
  show ?case by simp
next
  case (Cons a as)
  have 1: "map_option nextp (m' a) = map_option nextp (m a)"
    by (rule Cons.prems) simp
  have 2: "path m' p' as y = path m p' as y" for p'
    by (rule Cons.IH) (simp add: Cons.prems)
  from 1 show ?case
    by (cases "m a"; cases "m' a") (simp_all add: 2)
qed

lemma path_upd [simp]: "a \<notin> set as \<Longrightarrow> path (m(a := v)) p as y = path m p as y"
  by (rule path_cong) auto

lemma path_unique: "path m p as None \<Longrightarrow> path m p bs None \<Longrightarrow> as = bs"
proof (induction as arbitrary: p bs)
  case Nil
  then show ?case by simp
next
  case (Cons a as)
  then show ?case by (cases bs) (auto split: option.splits)
qed

lemma path_hd_notin: 
  assumes "m a = Some e" "path m (nextp e) as None" shows "a \<notin> set as"
proof
  assume "a \<in> set as"
  then obtain xs ys where as: "as = xs @ a # ys" by (auto simp: in_set_conv_decomp)
  with assms have "path m (nextp e) ys None"
    by (auto simp: path_append)
  from path_unique[OF this assms(2)] as show False by simp
qed

lemma path_distinct: "path m p as None \<Longrightarrow> distinct as"
  by (induction as arbitrary: p) (auto dest: path_hd_notin split: option.splits)

lemma path_last_next:
  "path m p as None \<Longrightarrow> as \<noteq> [] \<Longrightarrow> \<exists>e. m (last as) = Some e \<and> nextp e = None"
  by (induction as arbitrary: p) (auto split: if_splits option.splits)

lemma walk_imp_path: "walk m p n = Some as \<Longrightarrow> path m p as None \<and> length as = n"
proof (induction n arbitrary: p as)
  case 0
  then show ?case by (simp split: if_splits)
next
  case (Suc n)
  from Suc.prems obtain a e bs where
    "p = Some a" "m a = Some e" "walk m (nextp e) n = Some bs" "as = a # bs"
    by (auto split: option.splits)
  with Suc.IH[of "nextp e" bs] show ?case by simp
qed

lemma path_imp_walk: "path m p as None \<Longrightarrow> walk m p (length as) = Some as"
  by (induction as arbitrary: p) (auto split: option.splits)

lemma walk_path: "(walk m p n = Some as) = (path m p as None \<and> length as = n)"
  using walk_imp_path path_imp_walk by blast

lemma is_queue_nodes: "is_queue q h as \<Longrightarrow> nodes q h = Some as"
  by (simp add: is_queue_def nodes_def walk_path)

lemma is_queue_I1: "is_queue q h as \<Longrightarrow> I1 q"
  unfolding is_queue_def I1_def sint_eq_0[symmetric]
  by (cases as) (simp_all split: option.splits)

lemma I2_is_queue: 
  assumes "I2 q h" shows "\<exists>as. is_queue q h as"
proof (cases "nodes q h")
  case None
  with assms show ?thesis by (simp add: I2_def)
next
  case (Some as)
  then have "\<not> sint (qsize q) < 0"
    and w: "walk (eles h) (head q) (nat (sint (qsize q))) = Some as"
    unfolding nodes_def by (simp_all split: if_splits)
  moreover from assms Some have "tail q = (if as = [] then None else Some (last as))"
    by (simp add: I2_def)
  moreover note walk_imp_path[OF w]
  ultimately have "is_queue q h as"
    unfolding is_queue_def by simp
  then show ?thesis ..
qed

lemma invariants_is_queue: "invariants q h = (\<exists>as. is_queue q h as)"
proof
  assume "invariants q h"
  then show "\<exists>as. is_queue q h as"
    unfolding invariants_def using I2_is_queue by blast
next
  assume "\<exists>as. is_queue q h as"
  then obtain as where q: "is_queue q h as" ..
  note n = is_queue_nodes[OF q]
  from q have p: "path (eles h) (head q) as None" by (simp add: is_queue_def)
  from q n have "I2 q h" by (simp add: I2_def is_queue_def)
  moreover from n path_distinct[OF p] have "I3 q h" by (simp add: I3_def)
  ultimately show "invariants q h" using is_queue_I1[OF q] by (simp add: invariants_def)
qed

lemma is_queue_payloads: "is_queue q h as \<Longrightarrow> payloads q h = vals (eles h) as"
  by (simp add: payloads_def is_queue_nodes)

section \<open>Reversal\<close>

lemma path_start: "path m p as y \<Longrightarrow> p = (if as = [] then y else Some (hd as))"
  by (cases as) auto

lemma path_determines:
  assumes "path m p as None" "path m' p as None"
    and "\<And>a. a \<in> set as \<Longrightarrow> map_option valuep (m' a) = map_option valuep (m a)"
    and "a \<in> set as"
  shows "m' a = m a"
  using assms
proof (induction as arbitrary: p)
  case Nil
  then show ?case by simp
next
  case (Cons b bs)
  from Cons.prems(1) obtain e where e: "m b = Some e" "path m (nextp e) bs None"
    by (auto split: option.splits)
  from Cons.prems(2) obtain e' where e': "m' b = Some e'" "path m' (nextp e') bs None"
    by (auto split: option.splits)
  from path_start[OF e(2)] path_start[OF e'(2)] have n: "nextp e' = nextp e" by simp
  from Cons.prems(3)[of b] e e' have "valuep e' = valuep e" by simp
  with n have "e' = e" by simp
  show ?case
  proof (cases "a = b")
    case True
    with e e' \<open>e' = e\<close> show ?thesis by simp
  next
    case False
    with Cons.prems(4) have "a \<in> set bs" by simp
    then show ?thesis
      using Cons.IH[OF e(2) e'(2)[unfolded n]] Cons.prems(3) by simp
  qed
qed

lemma reverse_loop_path:
  assumes "path (eles h) r Rs None" "path (eles h) l Ls None" "set Rs \<inter> set Ls = {}"
  shows "\<exists>h'. reverse_loop h l r = Some (h', if Rs = [] then l else Some (last Rs)) \<and>
           path (eles h') (if Rs = [] then l else Some (last Rs)) (rev Rs @ Ls) None \<and>
           mallocs h' = mallocs h \<and>
           (\<forall>a. map_option valuep (eles h' a) = map_option valuep (eles h a)) \<and>
           (\<forall>a. a \<notin> set Rs \<longrightarrow> eles h' a = eles h a)"
  using assms
proof (induction Rs arbitrary: h l r Ls)
  case Nil
  then show ?case by (simp add: reverse_loop.simps[of h l None])
next
  case (Cons a Rs)
  from Cons.prems(1) obtain e where
    r: "r = Some a" and e: "eles h a = Some e" and p: "path (eles h) (nextp e) Rs None"
    by (auto split: option.splits)
  let ?h1 = "h\<lparr>eles := (eles h)(a \<mapsto> e\<lparr>nextp := l\<rparr>)\<rparr>"
  have na: "a \<notin> set Rs" using e p by (rule path_hd_notin)
  have nl: "a \<notin> set Ls" using Cons.prems(3) by simp
  have 1: "path (eles ?h1) (nextp e) Rs None" using p na by simp
  have 2: "path (eles ?h1) (Some a) (a # Ls) None" using Cons.prems(2) nl by simp
  have 3: "set Rs \<inter> set (a # Ls) = {}" using Cons.prems(3) na by simp
  from Cons.IH[OF 1 2 3] obtain h' where
    h': "reverse_loop ?h1 (Some a) (nextp e) = Some (h', if Rs = [] then Some a else Some (last Rs))"
        "path (eles h') (if Rs = [] then Some a else Some (last Rs)) (rev Rs @ a # Ls) None"
        "mallocs h' = mallocs ?h1"
        "\<forall>b. map_option valuep (eles h' b) = map_option valuep (eles ?h1 b)"
        "\<forall>b. b \<notin> set Rs \<longrightarrow> eles h' b = eles ?h1 b"
    by blast
  have "reverse_loop h l r = reverse_loop ?h1 (Some a) (nextp e)"
    unfolding r by (subst reverse_loop.simps) (simp add: e)
  moreover have "\<forall>b. map_option valuep (eles h' b) = map_option valuep (eles h b)"
    using h'(4) e by (auto simp: fun_upd_def)
  moreover have "\<forall>b. b \<notin> set (a # Rs) \<longrightarrow> eles h' b = eles h b"
    using h'(5) by simp
  ultimately show ?case using h'(1,2,3) by auto
qed


lemma val_of_cong:
  "map_option valuep (m' a) = map_option valuep (m a) \<Longrightarrow> val_of m' a = val_of m a"
  unfolding val_of_def by (cases "m a"; cases "m' a") simp_all

lemma vals_cong:
  "(\<And>a. a \<in> set as \<Longrightarrow> map_option valuep (m' a) = map_option valuep (m a)) \<Longrightarrow>
     vals m' as = vals m as"
  unfolding vals_def
proof (rule map_cong[OF refl])
  fix a
  assume "\<And>a. a \<in> set as \<Longrightarrow> map_option valuep (m' a) = map_option valuep (m a)"
    and "a \<in> set as"
  then have "map_option valuep (m' a) = map_option valuep (m a)" .
  then show "val_of m' a = val_of m a" by (rule val_of_cong)
qed

lemma vals_rev: "vals m (rev as) = rev (vals m as)"
  by (simp add: vals_def rev_map)

lemma q_reverse_is_queue:
  assumes "is_queue q h as"
  shows "\<exists>h'. q_reverse (Some q) h = Some (Some (q\<lparr>tail := head q, head := tail q\<rparr>), h') \<and>
           is_queue (q\<lparr>tail := head q, head := tail q\<rparr>) h' (rev as) \<and>
           mallocs h' = mallocs h \<and>
           (\<forall>a. map_option valuep (eles h' a) = map_option valuep (eles h a)) \<and>
           (\<forall>a. a \<notin> set as \<longrightarrow> eles h' a = eles h a)"
proof -
  from assms have p: "path (eles h) (head q) as None"
    and t: "tail q = (if as = [] then None else Some (last as))"
    and n: "sint (qsize q) = int (length as)"
    by (simp_all add: is_queue_def)
  have "path (eles h) None [] None" by simp
  from reverse_loop_path[OF p this] obtain h' where
    h': "reverse_loop h None (head q) = Some (h', tail q)"
        "path (eles h') (tail q) (rev as) None"
        "mallocs h' = mallocs h"
        "\<forall>a. map_option valuep (eles h' a) = map_option valuep (eles h a)"
        "\<forall>a. a \<notin> set as \<longrightarrow> eles h' a = eles h a"
    unfolding t by auto
  from path_start[OF p] have "head q = (if as = [] then None else Some (last (rev as)))"
    by (simp add: last_rev)
  with h'(2) n have "is_queue (q\<lparr>tail := head q, head := tail q\<rparr>) h' (rev as)"
    by (simp add: is_queue_def)
  with h' show ?thesis by (simp add: q_reverse_def)
qed

text \<open>
  Claim C3. On a queue that satisfies the invariants, \<^verbatim>\<open>q_reverse\<close> returns a queue that
  satisfies them, whose nodes and payloads are those of the queue in the reverse order,
  whose head is the former tail and whose tail is the former head. It allocates and
  frees nothing: the live addresses, the payload of every node and the allocator are as
  before, and no node outside the queue changes; only links are rewritten. On the null
  reference and on the empty queue it changes nothing.
\<close>

theorem q_reverse_reverses:
  assumes "invariants q h"
  shows "\<exists>q' h'. q_reverse (Some q) h = Some (Some q', h') \<and> invariants q' h' \<and>
           payloads q' h' = rev (payloads q h) \<and>
           nodes q' h' = map_option rev (nodes q h) \<and>
           head q' = tail q \<and> tail q' = head q \<and> qsize q' = qsize q \<and>
           mallocs h' = mallocs h \<and> dom (eles h') = dom (eles h) \<and>
           (\<forall>a. map_option valuep (eles h' a) = map_option valuep (eles h a)) \<and>
           (\<forall>a. a \<notin> set (the (nodes q h)) \<longrightarrow> eles h' a = eles h a) \<and>
           (if qsize q = 0 then q' = q \<and> h' = h else True) \<and>
           q_reverse None h = Some (None, h)"
proof -
  from assms obtain as where q: "is_queue q h as" by (auto simp: invariants_is_queue)
  let ?q' = "q\<lparr>tail := head q, head := tail q\<rparr>"
  from q_reverse_is_queue[OF q] obtain h' where
    h': "q_reverse (Some q) h = Some (Some ?q', h')"
        "is_queue ?q' h' (rev as)" "mallocs h' = mallocs h"
        "\<forall>a. map_option valuep (eles h' a) = map_option valuep (eles h a)"
        "\<forall>a. a \<notin> set as \<longrightarrow> eles h' a = eles h a"
    by blast
  have v: "vals (eles h') as = vals (eles h) as"
    by (rule vals_cong) (simp add: h'(4))
  have d: "dom (eles h') = dom (eles h)"
  proof (rule set_eqI)
    fix a from h'(4) have "map_option valuep (eles h' a) = map_option valuep (eles h a)" ..
    then show "(a \<in> dom (eles h')) = (a \<in> dom (eles h))"
      by (cases "eles h a"; cases "eles h' a") auto
  qed
  have e: "qsize q = 0 \<Longrightarrow> ?q' = q \<and> h' = h"
  proof -
    assume "qsize q = 0"
    with q have "as = []" "head q = None" "tail q = None" by (auto simp: is_queue_def)
    with h'(3,5) show ?thesis by (simp add: fun_eq_iff)
  qed
  have "invariants ?q' h'" using h'(2) by (auto simp: invariants_is_queue)
  moreover have "payloads ?q' h' = rev (payloads q h)"
    by (simp add: is_queue_payloads[OF q] is_queue_payloads[OF h'(2)] v vals_rev)
  moreover have "nodes ?q' h' = map_option rev (nodes q h)"
    by (simp add: is_queue_nodes[OF q] is_queue_nodes[OF h'(2)])
  moreover have "q_reverse None h = Some (None, h)" by (simp add: q_reverse_def)
  ultimately show ?thesis using h'(1,3,4,5) d e
    by (simp add: is_queue_nodes[OF q])
qed

lemma is_queue_q3: "is_queue ex_queue ex_heap [1, 2, 3]"
  by (simp add: is_queue_def ex_queue_def ex_heap_def heap_of_def ele_def)

lemma invariants_q3: "invariants ex_queue ex_heap"
  using is_queue_q3 invariants_is_queue by blast

lemma payloads_q3: "payloads ex_queue ex_heap = [''b'', ''a'', ''c'']"
  unfolding is_queue_payloads[OF is_queue_q3]
  by (simp add: vals_def val_of_def ex_heap_def heap_of_def ele_def)

theorem q_reverse_reverses_witness:
  "invariants ex_queue ex_heap \<and> payloads ex_queue ex_heap = [''b'', ''a'', ''c''] \<and>
   (\<exists>q' h'. q_reverse (Some ex_queue) ex_heap = Some (Some q', h') \<and> invariants q' h' \<and>
      payloads q' h' = [''c'', ''a'', ''b''] \<and> head q' = Some 3 \<and> tail q' = Some 1 \<and>
      qsize q' = 3 \<and> dom (eles h') = {1, 2, 3})"
proof -
  have d: "dom (eles ex_heap) = {1, 2, 3}" "head ex_queue = Some 1" "tail ex_queue = Some 3" "qsize ex_queue = 3"
    by (auto simp: ex_heap_def ex_queue_def heap_of_def)
  from q_reverse_reverses[OF invariants_q3] obtain q' h' where
    "q_reverse (Some ex_queue) ex_heap = Some (Some q', h')" "invariants q' h'"
    "payloads q' h' = rev (payloads ex_queue ex_heap)" "head q' = tail ex_queue" "tail q' = head ex_queue"
    "qsize q' = qsize ex_queue" "dom (eles h') = dom (eles ex_heap)"
    by blast
  then show ?thesis
    using invariants_q3 by (simp add: payloads_q3 d)
qed

text \<open>
  Claim C8. Reversing a queue twice gives back the queue it started from: the same
  handle (head, tail and size) and the same store, so every node has its payload and its
  link again. This holds for the null reference, the empty queue and the queue of one
  node as well.
\<close>

theorem q_reverse_involution:
  assumes "invariants q h"
  shows "twice q_reverse (Some q) h = Some (Some q, h) \<and>
         twice q_reverse None h = Some (None, h)"
proof -
  from assms obtain as where q: "is_queue q h as" by (auto simp: invariants_is_queue)
  let ?q1 = "q\<lparr>tail := head q, head := tail q\<rparr>"
  from q_reverse_is_queue[OF q] obtain h1 where
    h1: "q_reverse (Some q) h = Some (Some ?q1, h1)"
        "is_queue ?q1 h1 (rev as)" "mallocs h1 = mallocs h"
        "\<forall>a. map_option valuep (eles h1 a) = map_option valuep (eles h a)"
        "\<forall>a. a \<notin> set as \<longrightarrow> eles h1 a = eles h a"
    by blast
  let ?q2 = "?q1\<lparr>tail := head ?q1, head := tail ?q1\<rparr>"
  from q_reverse_is_queue[OF h1(2)] obtain h2 where
    h2: "q_reverse (Some ?q1) h1 = Some (Some ?q2, h2)"
        "is_queue ?q2 h2 (rev (rev as))" "mallocs h2 = mallocs h1"
        "\<forall>a. map_option valuep (eles h2 a) = map_option valuep (eles h1 a)"
        "\<forall>a. a \<notin> set (rev as) \<longrightarrow> eles h2 a = eles h1 a"
    by blast
  have q2: "?q2 = q" by simp
  from q have p: "path (eles h) (head q) as None" by (simp add: is_queue_def)
  from h2(2) have p2: "path (eles h2) (head q) as None" by (simp add: is_queue_def)
  have "eles h2 a = eles h a" for a
  proof (cases "a \<in> set as")
    case True
    show ?thesis
      by (rule path_determines[OF p p2 _ True]) (simp add: h1(4) h2(4))
  next
    case False
    then show ?thesis using h1(5) h2(5) by simp
  qed
  then have "h2 = h" using h1(3) h2(3) by (simp add: fun_eq_iff)
  with h1(1) h2(1) q2 show ?thesis by (simp add: twice_def q_reverse_def)
qed

theorem q_reverse_involution_witness:
  "invariants ex_queue ex_heap \<and> twice q_reverse (Some ex_queue) ex_heap = Some (Some ex_queue, ex_heap)"
  using q_reverse_involution[OF invariants_q3] invariants_q3 by simp

section \<open>Merge sort\<close>

lemma strcmp_less: "(strcmp a b < 0) = (a < b)"
  by (induction a b rule: strcmp.induct) (auto simp: less_char_def)

lemma strcmp_le: "(strcmp a b \<le> 0) = (a \<le> b)"
  by (induction a b rule: strcmp.induct) (auto simp: less_char_def less_eq_char_def)

lemma sorted_ascending: "sorted xs = ascending xs"
  by (induction xs rule: ascending.induct) (auto simp: strcmp_le)

lemma merge_nodes_mset: "mset (merge_nodes v ls rs) = mset ls + mset rs"
  by (induction v ls rs rule: merge_nodes.induct) auto

lemma merge_nodes_set: "set (merge_nodes v ls rs) = set ls \<union> set rs"
  by (induction v ls rs rule: merge_nodes.induct) auto

lemma merge_nodes_sorted:
  "sorted (map v ls) \<Longrightarrow> sorted (map v rs) \<Longrightarrow> sorted (map v (merge_nodes v ls rs))"
  by (induction v ls rs rule: merge_nodes.induct) (auto simp: strcmp_less merge_nodes_set)

lemma find_half_spec:
  assumes "path (eles h) left L None" "path (eles h) right R None"
    and "L = P @ R" "P \<noteq> []" "2 \<le> length L"
  shows "\<exists>k. find_half h left right = Some (Some (L ! k)) \<and> k + 1 < length L"
  using assms
proof (induction R arbitrary: left right L P rule: induct_list012)
  case 1
  from path_start[OF "1.prems"(1)] "1.prems"(5) have "left = Some (L ! 0)"
    by (cases L) auto
  with "1.prems" show ?case
    by (subst find_half.simps) auto
next
  case (2 r)
  from path_start[OF "2.prems"(1)] "2.prems"(5) have "left = Some (L ! 0)"
    by (cases L) auto
  with "2.prems" show ?case
    by (subst find_half.simps) (auto split: option.splits)
next
  case (3 r1 r2 R')
  from "3.prems"(2) obtain re r2e where
    r: "right = Some r1" "eles h r1 = Some re" "nextp re = Some r2" "eles h r2 = Some r2e"
       "path (eles h) (nextp r2e) R' None"
    by (auto split: option.splits)
  from "3.prems"(1,5) obtain l L' le where
    l: "left = Some l" "L = l # L'" "eles h l = Some le" "path (eles h) (nextp le) L' None"
    by (cases L) (auto split: option.splits)
  have 1: "L' = (tl P @ [r1, r2]) @ R'" using "3.prems"(3,4) l(2) by (cases P) auto
  have 2: "tl P @ [r1, r2] \<noteq> []" by simp
  have 3: "2 \<le> length L'" using 1 by simp
  from "3.IH"(1)[OF l(4) r(5) 1 2 3] obtain k where
    k: "find_half h (nextp le) (nextp r2e) = Some (Some (L' ! k))" "k + 1 < length L'"
    by blast
  have "find_half h left right = find_half h (nextp le) (nextp r2e)"
    by (subst find_half.simps) (simp add: r l)
  with k l(2) have "find_half h left right = Some (Some (L ! (Suc k))) \<and> Suc k + 1 < length L"
    by simp
  then show ?case by blast
qed

lemma tail_walk_spec:
  "path (eles h) (Some t) ts None \<Longrightarrow> tail_walk h (Some t) = Some (Some (last ts))"
proof (induction ts arbitrary: t)
  case Nil
  then show ?case by simp
next
  case (Cons a ts)
  then obtain e where e: "t = a" "eles h a = Some e" "path (eles h) (nextp e) ts None"
    by (auto split: option.splits)
  show ?case
  proof (cases ts)
    case Nil
    with e show ?thesis by (subst tail_walk.simps) simp
  next
    case (Cons b bs)
    with e have n: "nextp e = Some b" by simp
    from Cons.IH[OF e(3)[unfolded n]] e n Cons show ?thesis
      by (subst tail_walk.simps) simp
  qed
qed


lemma same_values_live:
  "map_option valuep (m' a) = map_option valuep (m a) \<Longrightarrow> (m' a = None) = (m a = None)"
  by (cases "m a"; cases "m' a") simp_all

lemma assign_spec:
  assumes "dest_ok (eles h) dst S" "path (eles h) p as None" "set as \<subseteq> S"
  shows "\<exists>h' root'. assign h root dst p = Some (h', root') \<and>
           deref (eles h') root' dst = p \<and> path (eles h') p as None \<and>
           (dst \<noteq> Root \<longrightarrow> root' = root) \<and> mallocs h' = mallocs h \<and>
           (\<forall>a. map_option valuep (eles h' a) = map_option valuep (eles h a)) \<and>
           (\<forall>a. a \<notin> dest_set dst \<longrightarrow> eles h' a = eles h a)"
proof (cases dst)
  case Root
  with assms show ?thesis by (simp add: assign_def deref_def)
next
  case (NextOf d)
  with assms obtain e where e: "eles h d = Some e" and d: "d \<notin> set as"
    by (auto simp: dest_ok_def)
  with assms(2) NextOf show ?thesis
    by (simp add: assign_def deref_def dest_set_def)
qed

lemma merge_loop_spec:
  assumes "path (eles h) left Ls None" "path (eles h) right Rs None"
    and "set Ls \<inter> set Rs = {}" "dest_ok (eles h) dst (set Ls \<union> set Rs)"
    and "\<And>a. a \<in> set Ls \<union> set Rs \<Longrightarrow> val_of (eles h) a = v a"
  shows "\<exists>h' root'. merge_loop h root dst left right = Some (h', root') \<and>
           path (eles h') (deref (eles h') root' dst) (merge_nodes v Ls Rs) None \<and>
           (dst \<noteq> Root \<longrightarrow> root' = root) \<and> mallocs h' = mallocs h \<and>
           (\<forall>a. map_option valuep (eles h' a) = map_option valuep (eles h a)) \<and>
           (\<forall>a. a \<notin> set Ls \<union> set Rs \<union> dest_set dst \<longrightarrow> eles h' a = eles h a)"
  using assms
proof (induction v Ls Rs arbitrary: h root dst left right rule: merge_nodes.induct)
  case (1 v rs)
  then have l: "left = None" by simp
  from assign_spec[OF "1.prems"(4) "1.prems"(2), of root] show ?case
    unfolding l by (subst merge_loop.simps) auto
next
  case (2 v l ls)
  then have r: "right = None" and l: "left = Some l" by auto
  from assign_spec[OF "2.prems"(4) "2.prems"(1), of root] show ?case
    unfolding l r by (subst merge_loop.simps) auto
next
  case (3 v l ls r rs)
  from "3.prems"(1) obtain le where
    l: "left = Some l" "eles h l = Some le" "path (eles h) (nextp le) ls None"
    by (auto split: option.splits)
  from "3.prems"(2) obtain re where
    r: "right = Some r" "eles h r = Some re" "path (eles h) (nextp re) rs None"
    by (auto split: option.splits)
  have nl: "l \<notin> set ls" using l(2,3) by (rule path_hd_notin)
  have nr: "r \<notin> set rs" using r(2,3) by (rule path_hd_notin)
  have vl: "valuep le = v l" using "3.prems"(5)[of l] l(2) by (simp add: val_of_def)
  have vr: "valuep re = v r" using "3.prems"(5)[of r] r(2) by (simp add: val_of_def)
  show ?case
  proof (cases "strcmp (v l) (v r) < 0")
    case True
    from assign_spec[OF "3.prems"(4) "3.prems"(1), of root] obtain h1 root1 where
      a: "assign h root dst left = Some (h1, root1)" "deref (eles h1) root1 dst = left"
         "dst \<noteq> Root \<longrightarrow> root1 = root" "mallocs h1 = mallocs h"
         "\<forall>a. map_option valuep (eles h1 a) = map_option valuep (eles h a)"
         "\<forall>a. a \<notin> dest_set dst \<longrightarrow> eles h1 a = eles h a"
      by auto
    have d: "dest_set dst \<inter> (set (l # ls) \<union> set (r # rs)) = {}"
      using "3.prems"(4) by (cases dst) (auto simp: dest_set_def dest_ok_def)
    have same: "a \<in> set (l # ls) \<union> set (r # rs) \<Longrightarrow> eles h1 a = eles h a" for a
      using a(6) d by blast
    have l1: "eles h1 l = Some le" using same[of l] l(2) by simp
    have 1: "path (eles h1) (nextp le) ls None"
      using l(3) same by (subst path_cong[of ls "eles h1" "eles h"]) auto
    have 2: "path (eles h1) right (r # rs) None"
      using "3.prems"(2) same by (subst path_cong[of "r # rs" "eles h1" "eles h"]) auto
    have 3: "set ls \<inter> set (r # rs) = {}" using "3.prems"(3) by auto
    have 4: "dest_ok (eles h1) (NextOf l) (set ls \<union> set (r # rs))"
      using nl "3.prems"(3) l1 by (auto simp: dest_ok_def)
    have 5: "\<And>a. a \<in> set ls \<union> set (r # rs) \<Longrightarrow> val_of (eles h1) a = v a"
      using "3.prems"(5) same by (auto simp: val_of_def)
    from "3.IH"(1)[OF True 1 2 3 4 5, of root1] obtain h' root' where
      i: "merge_loop h1 root1 (NextOf l) (nextp le) right = Some (h', root')"
         "path (eles h') (deref (eles h') root' (NextOf l)) (merge_nodes v ls (r # rs)) None"
         "root' = root1" "mallocs h' = mallocs h1"
         "\<forall>a. map_option valuep (eles h' a) = map_option valuep (eles h1 a)"
         "\<forall>a. a \<notin> set ls \<union> set (r # rs) \<union> dest_set (NextOf l) \<longrightarrow> eles h' a = eles h1 a"
      by auto
    have m: "merge_loop h root dst left right = Some (h', root')"
      using i(1) a(1) l r l1 vl vr True by (subst merge_loop.simps) simp
    from i(5) l1 obtain le' where le': "eles h' l = Some le'"
      using same_values_live[of "eles h'" l "eles h1"] by auto
    have dd: "deref (eles h') root' dst = Some l"
    proof (cases dst)
      case Root
      with a(2) i(3) l(1) show ?thesis by (simp add: deref_def)
    next
      case (NextOf d)
      with d have "d \<notin> set ls \<union> set (r # rs) \<union> dest_set (NextOf l)"
        by (auto simp: dest_set_def)
      with i(6) have "eles h' d = eles h1 d" by simp
      with a(2) l(1) NextOf show ?thesis by (simp add: deref_def)
    qed
    have p: "path (eles h') (Some l) (l # merge_nodes v ls (r # rs)) None"
      using i(2) le' by (simp add: deref_def)
    have "\<forall>a. a \<notin> set (l # ls) \<union> set (r # rs) \<union> dest_set dst \<longrightarrow> eles h' a = eles h a"
      using i(6) a(6) by (auto simp: dest_set_def)
    moreover have "\<forall>a. map_option valuep (eles h' a) = map_option valuep (eles h a)"
      using i(5) a(5) by simp
    ultimately show ?thesis using m dd p True i(3,4) a(3,4) by simp
  next
    case False
    from assign_spec[OF "3.prems"(4) "3.prems"(2), of root] obtain h1 root1 where
      a: "assign h root dst right = Some (h1, root1)" "deref (eles h1) root1 dst = right"
         "dst \<noteq> Root \<longrightarrow> root1 = root" "mallocs h1 = mallocs h"
         "\<forall>a. map_option valuep (eles h1 a) = map_option valuep (eles h a)"
         "\<forall>a. a \<notin> dest_set dst \<longrightarrow> eles h1 a = eles h a"
      by auto
    have d: "dest_set dst \<inter> (set (l # ls) \<union> set (r # rs)) = {}"
      using "3.prems"(4) by (cases dst) (auto simp: dest_set_def dest_ok_def)
    have same: "a \<in> set (l # ls) \<union> set (r # rs) \<Longrightarrow> eles h1 a = eles h a" for a
      using a(6) d by blast
    have r1: "eles h1 r = Some re" using same[of r] r(2) by simp
    have 1: "path (eles h1) left (l # ls) None"
      using "3.prems"(1) same by (subst path_cong[of "l # ls" "eles h1" "eles h"]) auto
    have 2: "path (eles h1) (nextp re) rs None"
      using r(3) same by (subst path_cong[of rs "eles h1" "eles h"]) auto
    have 3: "set (l # ls) \<inter> set rs = {}" using "3.prems"(3) by auto
    have 4: "dest_ok (eles h1) (NextOf r) (set (l # ls) \<union> set rs)"
      using nr "3.prems"(3) r1 by (auto simp: dest_ok_def)
    have 5: "\<And>a. a \<in> set (l # ls) \<union> set rs \<Longrightarrow> val_of (eles h1) a = v a"
      using "3.prems"(5) same by (auto simp: val_of_def)
    from "3.IH"(2)[OF False 1 2 3 4 5, of root1] obtain h' root' where
      i: "merge_loop h1 root1 (NextOf r) left (nextp re) = Some (h', root')"
         "path (eles h') (deref (eles h') root' (NextOf r)) (merge_nodes v (l # ls) rs) None"
         "root' = root1" "mallocs h' = mallocs h1"
         "\<forall>a. map_option valuep (eles h' a) = map_option valuep (eles h1 a)"
         "\<forall>a. a \<notin> set (l # ls) \<union> set rs \<union> dest_set (NextOf r) \<longrightarrow> eles h' a = eles h1 a"
      by auto
    have m: "merge_loop h root dst left right = Some (h', root')"
      using i(1) a(1) l r r1 vl vr False by (subst merge_loop.simps) simp
    from i(5) r1 obtain re' where re': "eles h' r = Some re'"
      using same_values_live[of "eles h'" r "eles h1"] by auto
    have dd: "deref (eles h') root' dst = Some r"
    proof (cases dst)
      case Root
      with a(2) i(3) r(1) show ?thesis by (simp add: deref_def)
    next
      case (NextOf d)
      with d have "d \<notin> set (l # ls) \<union> set rs \<union> dest_set (NextOf r)"
        by (auto simp: dest_set_def)
      with i(6) have "eles h' d = eles h1 d" by simp
      with a(2) r(1) NextOf show ?thesis by (simp add: deref_def)
    qed
    have p: "path (eles h') (Some r) (r # merge_nodes v (l # ls) rs) None"
      using i(2) re' by (simp add: deref_def)
    have "\<forall>a. a \<notin> set (l # ls) \<union> set (r # rs) \<union> dest_set dst \<longrightarrow> eles h' a = eles h a"
      using i(6) a(6) by (auto simp: dest_set_def)
    moreover have "\<forall>a. map_option valuep (eles h' a) = map_option valuep (eles h a)"
      using i(5) a(5) by simp
    ultimately show ?thesis using m dd p False i(3,4) a(3,4) by simp
  qed
qed


lemma path_snoc_next: "path m p (xs @ [l]) z \<Longrightarrow> \<exists>le. m l = Some le \<and> nextp le = z"
  by (auto simp: path_append split: option.splits)

lemma path_cut:
  assumes "path m p (xs @ [l]) z" "l \<notin> set xs" "m l = Some le"
  shows "path (m(l \<mapsto> le\<lparr>nextp := None\<rparr>)) p (xs @ [l]) None"
proof -
  from assms(1) obtain y where "path m p xs y" "path m y [l] z"
    by (auto simp: path_append)
  with assms(2,3) show ?thesis
    by (auto simp: path_append split: option.splits)
qed

lemma merge_sort_spec:
  assumes "path (eles h) hp as None"
  shows "\<exists>h' hp' bs. merge_sort h hp = Some (h', hp') \<and> path (eles h') hp' bs None \<and>
           mset bs = mset as \<and> sorted (vals (eles h') bs) \<and> mallocs h' = mallocs h \<and>
           (\<forall>a. map_option valuep (eles h' a) = map_option valuep (eles h a)) \<and>
           (\<forall>a. a \<notin> set as \<longrightarrow> eles h' a = eles h a) \<and>
           (length as \<le> 1 \<longrightarrow> h' = h \<and> hp' = hp)"
  using assms
proof (induction "length as" arbitrary: h hp as rule: less_induct)
  case less
  note p = less.prems
  show ?case
  proof (cases "length as \<le> 1")
    case True
    have "merge_sort h hp = Some (h, hp)"
    proof (cases as)
      case Nil
      with p show ?thesis by (subst merge_sort.simps) simp
    next
      case (Cons a cs)
      with True have "cs = []" by simp
      with p Cons show ?thesis by (subst merge_sort.simps) (auto split: option.splits)
    qed
    moreover have "sorted (vals (eles h) as)"
      using True by (cases as) (simp_all add: vals_def)
    ultimately show ?thesis using p True by auto
  next
    case False
    then obtain a b cs where as: "as = a # b # cs"
      by (cases as; cases "tl as") auto
    from p as obtain e where
      e: "hp = Some a" "eles h a = Some e" "nextp e = Some b" "path (eles h) (nextp e) (b # cs) None"
      by (auto split: option.splits)
    have "as = [a] @ (b # cs)" "[a] \<noteq> []" "2 \<le> length as" using as by simp_all
    from find_half_spec[OF p e(4) this] obtain k where
      k: "find_half h hp (nextp e) = Some (Some (as ! k))" "k + 1 < length as"
      by blast
    define l where "l = as ! k"
    define as1 where "as1 = take (Suc k) as"
    define as2 where "as2 = drop (Suc k) as"
    have split: "as = as1 @ as2" by (simp add: as1_def as2_def)
    have as1: "as1 = take k as @ [l]"
      using k(2) by (simp add: as1_def l_def take_Suc_conv_app_nth)
    have len: "length as1 < length as" "length as2 < length as"
      using k(2) by (simp_all add: as1_def as2_def)
    have dist: "distinct as" using p by (rule path_distinct)
    then have d12: "distinct (as1 @ as2)" using split by simp
    then have "distinct as1" by simp
    then have "distinct (take k as @ [l])" using as1 by simp
    with d12 have disj: "set as1 \<inter> set as2 = {}" "l \<notin> set (take k as)" "l \<notin> set as2"
      by (auto simp: as1)
    from p obtain z where z: "path (eles h) hp as1 z" "path (eles h) z as2 None"
      unfolding split by (auto simp: path_append)
    from path_snoc_next[OF z(1)[unfolded as1]] obtain le where
      le: "eles h l = Some le" "nextp le = z" by blast
    let ?h1 = "h\<lparr>eles := (eles h)(l \<mapsto> le\<lparr>nextp := None\<rparr>)\<rparr>"
    have p1: "path (eles ?h1) hp as1 None"
      using path_cut[OF z(1)[unfolded as1] disj(2) le(1)] by (simp add: as1)
    have p2: "path (eles ?h1) z as2 None" using z(2) disj(3) by simp
    from less.hyps[OF len(1) p1] obtain h2 hp2 bs1 where
      s1: "merge_sort ?h1 hp = Some (h2, hp2)" "path (eles h2) hp2 bs1 None"
          "mset bs1 = mset as1" "sorted (vals (eles h2) bs1)" "mallocs h2 = mallocs ?h1"
          "\<forall>a. map_option valuep (eles h2 a) = map_option valuep (eles ?h1 a)"
          "\<forall>a. a \<notin> set as1 \<longrightarrow> eles h2 a = eles ?h1 a"
      by blast
    have p2': "path (eles h2) z as2 None"
      using p2 s1(7) disj(1) by (subst path_cong[of as2 "eles h2" "eles ?h1"]) auto
    from less.hyps[OF len(2) p2'] obtain h3 right3 bs2 where
      s2: "merge_sort h2 z = Some (h3, right3)" "path (eles h3) right3 bs2 None"
          "mset bs2 = mset as2" "sorted (vals (eles h3) bs2)" "mallocs h3 = mallocs h2"
          "\<forall>a. map_option valuep (eles h3 a) = map_option valuep (eles h2 a)"
          "\<forall>a. a \<notin> set as2 \<longrightarrow> eles h3 a = eles h2 a"
      by blast
    have set1: "set bs1 = set as1" using s1(3) by (rule mset_eq_setD)
    have set2: "set bs2 = set as2" using s2(3) by (rule mset_eq_setD)
    have p1': "path (eles h3) hp2 bs1 None"
      using s1(2) s2(7) disj(1) set1 by (subst path_cong[of bs1 "eles h3" "eles h2"]) auto
    have d3: "set bs1 \<inter> set bs2 = {}" using disj(1) set1 set2 by simp
    have "vals (eles h3) bs1 = vals (eles h2) bs1"
      by (rule vals_cong) (simp add: s2(6))
    then have v1: "vals (eles h2) bs1 = map (val_of (eles h3)) bs1"
      by (simp add: vals_def)
    have v2: "vals (eles h3) bs2 = map (val_of (eles h3)) bs2"
      by (simp add: vals_def)
    from merge_loop_spec[OF p1' s2(2) d3, of Root "val_of (eles h3)" hp2] obtain h' root' where
      m: "merge_loop h3 hp2 Root hp2 right3 = Some (h', root')"
         "path (eles h') root' (merge_nodes (val_of (eles h3)) bs1 bs2) None"
         "mallocs h' = mallocs h3"
         "\<forall>a. map_option valuep (eles h' a) = map_option valuep (eles h3 a)"
         "\<forall>a. a \<notin> set bs1 \<union> set bs2 \<longrightarrow> eles h' a = eles h3 a"
      by (auto simp: dest_ok_def deref_def dest_set_def)
    let ?bs = "merge_nodes (val_of (eles h3)) bs1 bs2"
    have r: "merge_sort h hp = Some (h', root')"
      using k(1) s1(1) s2(1) m(1) e le
      by (subst merge_sort.simps) (simp add: l_def[symmetric])
    have ms: "mset ?bs = mset as"
      using s1(3) s2(3) by (simp add: merge_nodes_mset split)
    have "sorted (map (val_of (eles h3)) ?bs)"
      using s1(4) s2(4) unfolding v1 v2 by (rule merge_nodes_sorted)
    moreover have "vals (eles h') ?bs = vals (eles h3) ?bs"
      by (rule vals_cong) (simp add: m(4))
    then have "vals (eles h') ?bs = map (val_of (eles h3)) ?bs"
      by (simp add: vals_def)
    ultimately have so: "sorted (vals (eles h') ?bs)" by simp
    have va: "\<forall>a. map_option valuep (eles h' a) = map_option valuep (eles h a)"
      using m(4) s2(6) s1(6) le(1) by (auto simp: fun_upd_def)
    have l_in: "l \<in> set as1" by (simp add: as1)
    have fr: "\<forall>a. a \<notin> set as \<longrightarrow> eles h' a = eles h a"
      using m(5) s2(7) s1(7) set1 set2 l_in unfolding split by auto
    from r m(2) ms so m(3) s2(5) s1(5) va fr False show ?thesis
      by auto
  qed
qed

subsection \<open>The sorted queue\<close>

lemma tail_walk_queue:
  assumes "path (eles h) hp bs None" 
    and "t = (if as = [] then None else Some (last as))" "set bs = set as"
  shows "tail_walk h t = Some (if bs = [] then None else Some (last bs))"
proof (cases "as = []")
  case True
  with assms show ?thesis by (subst tail_walk.simps) simp
next
  case False
  then have "last as \<in> set bs" using assms(3) by simp
  then obtain xs ys where bs: "bs = xs @ last as # ys" by (auto simp: in_set_conv_decomp)
  with assms(1) obtain y where "path (eles h) y (last as # ys) None"
    by (auto simp: path_append)
  with path_start[OF this] have "path (eles h) (Some (last as)) (last as # ys) None"
    by simp
  from tail_walk_spec[OF this] assms(2) False bs show ?thesis by simp
qed

lemma sorted_vals_unique:
  assumes "sorted (vals m' bs)" "mset bs = mset as"
    and "\<forall>a. map_option valuep (m' a) = map_option valuep (m a)"
  shows "vals m' bs = sort (vals m as)"
proof -
  have "vals m' bs = vals m bs" by (rule vals_cong) (simp add: assms(3))
  moreover have "mset (vals m bs) = mset (vals m as)"
    unfolding vals_def mset_map assms(2) ..
  ultimately show ?thesis
    using assms(1) by (simp add: properties_for_sort)
qed

lemma q_sort_is_queue:
  assumes "is_queue q h as"
  shows "\<exists>h' q' bs. q_sort (Some q) h = Some (Some q', h') \<and> is_queue q' h' bs \<and>
           mset bs = mset as \<and> vals (eles h') bs = sort (vals (eles h) as) \<and>
           mallocs h' = mallocs h \<and>
           (\<forall>a. map_option valuep (eles h' a) = map_option valuep (eles h a)) \<and>
           (\<forall>a. a \<notin> set as \<longrightarrow> eles h' a = eles h a) \<and>
           (length as \<le> 1 \<longrightarrow> h' = h \<and> q' = q)"
proof -
  from assms have p: "path (eles h) (head q) as None"
    and t: "tail q = (if as = [] then None else Some (last as))"
    and n: "sint (qsize q) = int (length as)"
    by (simp_all add: is_queue_def)
  from merge_sort_spec[OF p] obtain h' hp' bs where
    m: "merge_sort h (head q) = Some (h', hp')" "path (eles h') hp' bs None"
       "mset bs = mset as" "sorted (vals (eles h') bs)" "mallocs h' = mallocs h"
       "\<forall>a. map_option valuep (eles h' a) = map_option valuep (eles h a)"
       "\<forall>a. a \<notin> set as \<longrightarrow> eles h' a = eles h a"
       "length as \<le> 1 \<longrightarrow> h' = h \<and> hp' = head q"
    by blast
  have s: "set bs = set as" using m(3) by (rule mset_eq_setD)
  have l: "length bs = length as" using m(3) by (rule mset_eq_length)
  let ?t = "if bs = [] then None else Some (last bs)"
  let ?q' = "q\<lparr>head := hp', tail := ?t\<rparr>"
  from tail_walk_queue[OF m(2) t s] have w: "tail_walk h' (tail q) = Some ?t" .
  have r: "q_sort (Some q) h = Some (Some ?q', h')"
    by (simp add: q_sort_def q_sort_with_def m(1) w)
  have iq: "is_queue ?q' h' bs" using m(2) n l by (simp add: is_queue_def)
  have noop: "?q' = q" if "length as \<le> 1"
  proof -
    from that m(8) have hp: "hp' = head q" by simp
    from that have "bs = as"
      using m(3) by (cases as; cases bs) auto
    with t hp show ?thesis by simp
  qed
  from r iq m(3,5,6,7,8) noop sorted_vals_unique[OF m(4) m(3) m(6)] show ?thesis
    by blast
qed

text \<open>
  Claim C2. On a queue that satisfies the invariants, \<^verbatim>\<open>q_sort\<close> returns a queue that
  satisfies them and whose payloads, read from head to tail, are in ascending order of
  \<^verbatim>\<open>strcmp\<close>: every adjacent pair compares at most 0. The payloads are those of the
  queue before, sorted: the multiset of payloads, the multiset of nodes and the size are
  unchanged, and so are the payload of every node, the live addresses and the allocator.
  On the null reference, the empty queue and a queue of one node it changes nothing.
\<close>

theorem q_sort_sorts:
  assumes "invariants q h"
  shows "\<exists>q' h'. q_sort (Some q) h = Some (Some q', h') \<and> invariants q' h' \<and>
           ascending (payloads q' h') \<and> payloads q' h' = sort (payloads q h) \<and>
           mset (payloads q' h') = mset (payloads q h) \<and>
           map_option mset (nodes q' h') = map_option mset (nodes q h) \<and>
           qsize q' = qsize q \<and> mallocs h' = mallocs h \<and> dom (eles h') = dom (eles h) \<and>
           (\<forall>a. map_option valuep (eles h' a) = map_option valuep (eles h a)) \<and>
           (if sint (qsize q) \<le> 1 then q' = q \<and> h' = h else True) \<and>
           q_sort None h = Some (None, h)"
proof -
  from assms obtain as where q: "is_queue q h as" by (auto simp: invariants_is_queue)
  from q_sort_is_queue[OF q] obtain h' q' bs where
    s: "q_sort (Some q) h = Some (Some q', h')" "is_queue q' h' bs"
       "mset bs = mset as" "vals (eles h') bs = sort (vals (eles h) as)"
       "mallocs h' = mallocs h"
       "\<forall>a. map_option valuep (eles h' a) = map_option valuep (eles h a)"
       "length as \<le> 1 \<longrightarrow> h' = h \<and> q' = q"
    by blast
  have pay: "payloads q' h' = sort (payloads q h)"
    by (simp add: is_queue_payloads[OF q] is_queue_payloads[OF s(2)] s(4))
  have d: "dom (eles h') = dom (eles h)"
  proof (rule set_eqI)
    fix a from s(6) have "map_option valuep (eles h' a) = map_option valuep (eles h a)" ..
    then show "(a \<in> dom (eles h')) = (a \<in> dom (eles h))"
      by (cases "eles h a"; cases "eles h' a") auto
  qed
  have "sint (qsize q') = sint (qsize q)"
    using q s(2) mset_eq_length[OF s(3)] by (simp add: is_queue_def)
  then have n: "qsize q' = qsize q" by (rule signed_word_eqI)
  have "invariants q' h'" using s(2) by (auto simp: invariants_is_queue)
  moreover have "ascending (payloads q' h')"
    unfolding pay by (simp flip: sorted_ascending)
  moreover have "map_option mset (nodes q' h') = map_option mset (nodes q h)"
    by (simp add: is_queue_nodes[OF q] is_queue_nodes[OF s(2)] s(3))
  moreover have "sint (qsize q) \<le> 1 \<Longrightarrow> q' = q \<and> h' = h"
    using s(7) q by (simp add: is_queue_def)
  moreover have "q_sort None h = Some (None, h)" by (simp add: q_sort_def q_sort_with_def)
  ultimately show ?thesis using s(1,5,6) pay d n by simp
qed

lemma sort_bac: "sort [''b'', ''a'', ''c''] = [''a'', ''b'', ''c'']"
  by (simp add: less_eq_char_def less_char_def)

theorem q_sort_sorts_witness:
  "invariants ex_queue ex_heap \<and> payloads ex_queue ex_heap = [''b'', ''a'', ''c''] \<and>
   (\<exists>q' h'. q_sort (Some ex_queue) ex_heap = Some (Some q', h') \<and> invariants q' h' \<and>
      payloads q' h' = [''a'', ''b'', ''c''] \<and> qsize q' = 3)"
proof -
  from q_sort_sorts[OF invariants_q3] obtain q' h' where
    "q_sort (Some ex_queue) ex_heap = Some (Some q', h')" "invariants q' h'"
    "payloads q' h' = sort (payloads ex_queue ex_heap)" "qsize q' = qsize ex_queue"
    by blast
  moreover have "qsize ex_queue = 3" by (simp add: ex_queue_def)
  ultimately show ?thesis
    using invariants_q3 by (auto simp: payloads_q3 sort_bac)
qed




section \<open>The partition-based sort\<close>

lemma same_links_refl: "same_links h h"
  by (simp add: same_links_def)

lemma same_links_trans: "same_links h h1 \<Longrightarrow> same_links h1 h2 \<Longrightarrow> same_links h h2"
  by (simp add: same_links_def)

lemma same_links_path: "same_links h h' \<Longrightarrow> path (eles h') p as y = path (eles h) p as y"
  by (rule path_links_cong) (simp add: same_links_def)

lemma same_links_Some:
  assumes "same_links h h'" "eles h a = Some e"
  shows "\<exists>e'. eles h' a = Some e' \<and> nextp e' = nextp e"
proof -
  from assms(1) have "map_option nextp (eles h' a) = map_option nextp (eles h a)"
    by (simp add: same_links_def)
  with assms(2) show ?thesis by (cases "eles h' a") simp_all
qed

lemma same_links_ele:
  assumes "same_links h h'" "val_of (eles h') a = val_of (eles h) a"
  shows "eles h' a = eles h a"
proof -
  from assms(1) have "map_option nextp (eles h' a) = map_option nextp (eles h a)"
    by (simp add: same_links_def)
  with assms(2) show ?thesis
    by (cases "eles h a"; cases "eles h' a") (simp_all add: val_of_def)
qed

lemma swap_str_spec:
  assumes "eles h a = Some ea" "eles h b = Some eb"
  shows "\<exists>h'. swap_str h a b = Some h' \<and> same_links h h' \<and>
           val_of (eles h') = (val_of (eles h))(a := val_of (eles h) b, b := val_of (eles h) a)"
proof -
  let ?h' = "h\<lparr>eles := ((eles h)(a \<mapsto> ea\<lparr>valuep := valuep eb\<rparr>))(b \<mapsto> eb\<lparr>valuep := valuep ea\<rparr>)\<rparr>"
  have "swap_str h a b = Some ?h'" using assms by (simp add: swap_str_def)
  moreover have "same_links h ?h'" using assms by (simp add: same_links_def)
  moreover have "val_of (eles ?h') = (val_of (eles h))(a := val_of (eles h) b, b := val_of (eles h) a)"
    using assms by (auto simp: fun_eq_iff val_of_def)
  ultimately show ?thesis by blast
qed

lemma path_next:
  "path m p (xs @ a # ys) z \<Longrightarrow>
     \<exists>e. m a = Some e \<and> nextp e = (if ys = [] then z else Some (hd ys))"
proof -
  assume "path m p (xs @ a # ys) z"
  then obtain y where "path m y (a # ys) z" by (auto simp: path_append)
  then obtain e where e: "m a = Some e" "path m (nextp e) ys z" by (auto split: option.splits)
  from path_start[OF e(2)] e(1) show ?thesis by simp
qed

lemma mset_map_upd:
  "distinct as \<Longrightarrow> mset (map (v(a := x)) as)
     = (if a \<in> set as then add_mset x (mset (map v as) - {#v a#}) else mset (map v as))"
  by (induction as) auto

lemma mset_map_swap:
  assumes "distinct as" "a \<in> set as" "b \<in> set as"
  shows "mset (map (v(a := v b, b := v a)) as) = mset (map v as)"
proof (cases "a = b")
  case True
  then show ?thesis by simp
next
  case False
  let ?M = "mset (map v as)"
  have a: "v a \<in># ?M" using assms(2) by simp
  have 1: "mset (map (v(a := v b)) as) = add_mset (v b) (?M - {#v a#})"
    using mset_map_upd[OF assms(1), of v a "v b"] assms(2) by simp
  have "mset (map ((v(a := v b))(b := v a)) as)
      = add_mset (v a) (mset (map (v(a := v b)) as) - {#(v(a := v b)) b#})"
    using mset_map_upd[OF assms(1), of "v(a := v b)" b "v a"] assms(3) by simp
  also have "(v(a := v b)) b = v b" using False by simp
  also have "add_mset (v a) (mset (map (v(a := v b)) as) - {#v b#})
      = add_mset (v a) (add_mset (v b) (?M - {#v a#}) - {#v b#})"
    by (simp only: 1)
  also have "\<dots> = add_mset (v a) (?M - {#v a#})" by simp
  also have "\<dots> = ?M" using a by simp
  finally show ?thesis .
qed


lemma partition_loop_spec:
  assumes "path (eles h) p0 as z" "distinct as" "as = L @ H @ R @ [la]"
    and "\<forall>a\<in>set L. val_of (eles h) a < pv" "\<forall>a\<in>set H. \<not> val_of (eles h) a < pv"
    and "val_of (eles h) la = pv"
  shows "\<exists>h' L' H'. partition_loop h la (Some (hd (H @ R @ [la]))) (Some (hd (R @ [la])))
               (if L = [] then None else Some (last L))
             = Some (h', Some (hd (H' @ [la])), (if L' = [] then None else Some (last L'))) \<and>
           as = L' @ H' @ [la] \<and> same_links h h' \<and>
           (\<forall>a. a \<notin> set H \<union> set R \<longrightarrow> val_of (eles h') a = val_of (eles h) a) \<and>
           mset (vals (eles h') as) = mset (vals (eles h) as) \<and>
           (\<forall>a\<in>set L'. val_of (eles h') a < pv) \<and> (\<forall>a\<in>set H'. \<not> val_of (eles h') a < pv)"
  using assms
proof (induction R arbitrary: h L H)
  case Nil
  have "partition_loop h la (Some (hd (H @ [] @ [la]))) (Some (hd ([] @ [la])))
               (if L = [] then None else Some (last L))
      = Some (h, Some (hd (H @ [la])), (if L = [] then None else Some (last L)))"
    by (subst partition_loop.simps) simp
  with Nil.prems show ?case
    by (intro exI[of _ h] exI[of _ L] exI[of _ H]) (simp add: same_links_refl)
next
  case (Cons x R)
  note as = Cons.prems(3)
  let ?v = "val_of (eles h)"
  have xla: "x \<noteq> la" using Cons.prems(2) as by auto
  have "as = (L @ H) @ x # (R @ [la])" using as by simp
  from path_next[OF Cons.prems(1)[unfolded this]] obtain re where
    re: "eles h x = Some re" "nextp re = Some (hd (R @ [la]))" by auto
  have "la \<in> set as" using as by simp
  with path_live[OF Cons.prems(1)] obtain laste where laste: "eles h la = Some laste" by auto
  have vx: "valuep re = ?v x" using re(1) by (simp add: val_of_def)
  have vla: "valuep laste = pv" using laste Cons.prems(6) by (simp add: val_of_def)
  have r: "Some (hd ((x # R) @ [la])) = Some x" by simp
  show ?case
  proof (cases "?v x < pv")
    case True
    define l where "l = hd (H @ x # R @ [la])"
    define H1 where "H1 = tl (H @ [x])"
    have as1: "as = (L @ [l]) @ H1 @ R @ [la]"
      unfolding as l_def H1_def by (cases H) simp_all
    have lH: "l \<in> insert x (set H)" unfolding l_def by (cases H) simp_all
    have H1: "set H1 \<subseteq> insert x (set H)" unfolding H1_def by (cases H) auto
    have lH1: "H \<noteq> [] \<Longrightarrow> l = hd H \<and> H1 = tl H @ [x]" unfolding l_def H1_def by (cases H) simp_all
    have lx: "H = [] \<Longrightarrow> l = x \<and> H1 = []" unfolding l_def H1_def by simp
    have "as = L @ l # (H1 @ R @ [la])" using as1 by simp
    from path_next[OF Cons.prems(1)[unfolded this]] obtain le0 where
      le0: "eles h l = Some le0" "nextp le0 = Some (hd (H1 @ R @ [la]))" by auto
    from swap_str_spec[OF re(1) le0(1)] obtain h1 where
      h1: "swap_str h x l = Some h1" "same_links h h1"
          "val_of (eles h1) = (?v)(x := ?v l, l := ?v x)"
      by blast
    from same_links_Some[OF h1(2) le0(1)] le0(2) obtain le where
      le: "eles h1 l = Some le" "nextp le = Some (hd (H1 @ R @ [la]))" by auto
    from same_links_Some[OF h1(2) re(1)] re(2) obtain re1 where
      re1: "eles h1 x = Some re1" "nextp re1 = Some (hd (R @ [la]))" by auto
    have d: "distinct (L @ H @ x # R @ [la])" using Cons.prems(2) as by simp
    then have dx: "x \<notin> set L" "set H \<inter> set L = {}" "la \<notin> set H" "x \<notin> set R"
      "set H \<inter> set R = {}" "x \<notin> set H" "distinct H"
      by auto
    with lH xla have dl: "l \<notin> set L" "x \<notin> set L" "l \<noteq> la" "l \<notin> set R"
      by auto
    have 1: "path (eles h1) p0 as z"
      using Cons.prems(1) by (simp add: same_links_path[OF h1(2)])
    have 4: "\<forall>a\<in>set (L @ [l]). val_of (eles h1) a < pv"
      using Cons.prems(4) True dl by (auto simp: h1(3))
    have 5: "\<forall>a\<in>set H1. \<not> val_of (eles h1) a < pv"
    proof (cases "H = []")
      case True
      with lx show ?thesis by simp
    next
      case False
      with lH1 have e: "l = hd H" "H1 = tl H @ [x]" by simp_all
      from False e(1) have H: "H = l # tl H" by simp
      from dx(7) H have "l \<notin> set (tl H)" by (metis distinct.simps(2))
      moreover from dx(6) H have "x \<notin> set (tl H)" "x \<noteq> l"
        by (metis list.set_intros(2), metis list.set_intros(1))
      moreover have "\<not> ?v l < pv" using Cons.prems(5) H by (metis list.set_intros(1))
      moreover have "\<forall>a\<in>set (tl H). \<not> ?v a < pv"
        using Cons.prems(5) H by (metis list.set_intros(2))
      ultimately show ?thesis by (auto simp: e(2) h1(3))
    qed
    have 6: "val_of (eles h1) la = pv"
      using Cons.prems(6) xla dl(3) by (simp add: h1(3))
    from Cons.IH[OF 1 Cons.prems(2) as1 4 5 6] obtain h' L' H' where
      i: "partition_loop h1 la (Some (hd (H1 @ R @ [la]))) (Some (hd (R @ [la])))
               (if L @ [l] = [] then None else Some (last (L @ [l])))
             = Some (h', Some (hd (H' @ [la])), (if L' = [] then None else Some (last L')))"
         "as = L' @ H' @ [la]" "same_links h1 h'"
         "\<forall>a. a \<notin> set H1 \<union> set R \<longrightarrow> val_of (eles h') a = val_of (eles h1) a"
         "mset (vals (eles h') as) = mset (vals (eles h1) as)"
         "\<forall>a\<in>set L'. val_of (eles h') a < pv" "\<forall>a\<in>set H'. \<not> val_of (eles h') a < pv"
      by blast
    have "partition_loop h la (Some (hd (H @ (x # R) @ [la]))) (Some (hd ((x # R) @ [la])))
               (if L = [] then None else Some (last L))
        = partition_loop h1 la (nextp le) (nextp re1) (Some l)"
      using xla re(1) laste vx vla True h1(1) le(1) re1(1)
      by (subst partition_loop.simps) (simp add: strcmp_less l_def)
    with i(1) le(2) re1(2) have
      res: "partition_loop h la (Some (hd (H @ (x # R) @ [la]))) (Some (hd ((x # R) @ [la])))
               (if L = [] then None else Some (last L))
             = Some (h', Some (hd (H' @ [la])), (if L' = [] then None else Some (last L')))"
      by simp
    have sl: "same_links h h'" using h1(2) i(3) by (rule same_links_trans)
    have fr: "\<forall>a. a \<notin> set H \<union> set (x # R) \<longrightarrow> val_of (eles h') a = val_of (eles h) a"
    proof (intro allI impI)
      fix a assume a: "a \<notin> set H \<union> set (x # R)"
      with H1 have "a \<notin> set H1 \<union> set R" by auto
      with i(4) have "val_of (eles h') a = val_of (eles h1) a" by simp
      moreover from a lH have "a \<noteq> x" "a \<noteq> l" by auto
      ultimately show "val_of (eles h') a = val_of (eles h) a" by (simp add: h1(3))
    qed
    have xin: "x \<in> set as" by (subst as) simp
    have lin: "l \<in> set as" by (subst as1) simp
    from mset_map_swap[OF Cons.prems(2) xin lin, of ?v]
    have "mset (vals (eles h1) as) = mset (vals (eles h) as)"
      by (simp only: vals_def h1(3))
    with i(5) have ms: "mset (vals (eles h') as) = mset (vals (eles h) as)" by simp
    from res i(2) sl fr ms i(6,7) show ?thesis by blast
  next
    case False
    have as1: "as = L @ (H @ [x]) @ R @ [la]" using as by simp
    have 5: "\<forall>a\<in>set (H @ [x]). \<not> ?v a < pv" using Cons.prems(5) False by simp
    from Cons.IH[OF Cons.prems(1,2) as1 Cons.prems(4) 5 Cons.prems(6)] obtain h' L' H' where
      i: "partition_loop h la (Some (hd ((H @ [x]) @ R @ [la]))) (Some (hd (R @ [la])))
               (if L = [] then None else Some (last L))
             = Some (h', Some (hd (H' @ [la])), (if L' = [] then None else Some (last L')))"
         "as = L' @ H' @ [la]" "same_links h h'"
         "\<forall>a. a \<notin> set (H @ [x]) \<union> set R \<longrightarrow> val_of (eles h') a = val_of (eles h) a"
         "mset (vals (eles h') as) = mset (vals (eles h) as)"
         "\<forall>a\<in>set L'. val_of (eles h') a < pv" "\<forall>a\<in>set H'. \<not> val_of (eles h') a < pv"
      by blast
    have hd: "hd (H @ (x # R) @ [la]) = hd ((H @ [x]) @ R @ [la])" by (cases H) simp_all
    have "partition_loop h la (Some (hd (H @ (x # R) @ [la]))) (Some (hd ((x # R) @ [la])))
               (if L = [] then None else Some (last L))
        = partition_loop h la (Some (hd (H @ (x # R) @ [la]))) (nextp re)
               (if L = [] then None else Some (last L))"
      using xla re(1) laste vx vla False
      by (subst partition_loop.simps) (simp add: strcmp_less)
    with i(1) re(2) hd have
      res: "partition_loop h la (Some (hd (H @ (x # R) @ [la]))) (Some (hd ((x # R) @ [la])))
               (if L = [] then None else Some (last L))
             = Some (h', Some (hd (H' @ [la])), (if L' = [] then None else Some (last L')))"
      by simp
    have fr: "\<forall>a. a \<notin> set H \<union> set (x # R) \<longrightarrow> val_of (eles h') a = val_of (eles h) a"
      using i(4) by simp
    from res i(2,3) fr i(5,6,7) show ?thesis by blast
  qed
qed


lemma quick_sort_None: "quick_sort h first None = Some h"
  by (subst quick_sort.simps) (simp split: option.splits)

lemma quick_sort_first_None: "quick_sort h None lastp = Some h"
  by (subst quick_sort.simps) simp

lemma quick_sort_same: "quick_sort h (Some a) (Some a) = Some h"
  by (subst quick_sort.simps) simp

lemma quick_sort_empty_range:
  "eles h la = Some e \<Longrightarrow> nextp e = Some f \<Longrightarrow> quick_sort h (Some f) (Some la) = Some h"
  by (subst quick_sort.simps) simp

lemma sorted_three:
  assumes "sorted xs" "sorted ys" "\<forall>x\<in>set xs. x < (p::string)" "\<forall>y\<in>set ys. \<not> y < p"
  shows "sorted (xs @ p # ys)"
proof -
  have 1: "x \<le> p" if "x \<in> set xs" for x using assms(3) that by (simp add: less_imp_le)
  have 2: "p \<le> y" if "y \<in> set ys" for y using assms(4) that by (simp add: not_less)
  have 3: "x \<le> y" if "x \<in> set xs" "y \<in> set ys" for x y
    using 1[OF that(1)] 2[OF that(2)] by (rule order_trans)
  show ?thesis using assms(1,2) 1 2 3 by (simp add: sorted_append)
qed

lemma quick_sort_spec:
  assumes "path (eles h) p0 as z" "as \<noteq> []" "distinct as" "z \<notin> Some ` set as"
  shows "\<exists>h'. quick_sort h (Some (hd as)) (Some (last as)) = Some h' \<and> same_links h h' \<and>
           (\<forall>a. a \<notin> set as \<longrightarrow> val_of (eles h') a = val_of (eles h) a) \<and>
           mset (vals (eles h') as) = mset (vals (eles h) as) \<and> sorted (vals (eles h') as)"
  using assms
proof (induction "length as" arbitrary: h p0 as z rule: less_induct)
  case less
  note IH = less.hyps and p = less.prems(1) and ne = less.prems(2) and dist = less.prems(3)
    and zn = less.prems(4)
  show ?case
  proof (cases "length as = 1")
    case True
    then obtain a where a: "as = [a]" by (cases as) auto
    show ?thesis
      unfolding a by (simp add: quick_sort_same same_links_refl vals_def)
  next
    case False
    define la where "la = last as"
    define xs where "xs = butlast as"
    have as: "as = xs @ [la]" using ne by (simp add: xs_def la_def)
    have xne: "xs \<noteq> []" using False ne as by (cases xs) auto
    have hd: "hd as = hd xs" using xne as by (cases xs) auto
    have fla: "hd as \<noteq> la" using dist xne unfolding as by (cases xs) auto
    let ?v = "val_of (eles h)"
    from path_next[OF p[unfolded as]] obtain laste where
      laste: "eles h la = Some laste" "nextp laste = z" by auto
    have zf: "z \<noteq> Some (hd as)" using zn ne by (metis hd_in_set image_eqI)
    have as0: "as = [] @ [] @ xs @ [la]" using as by simp
    from partition_loop_spec[OF p dist as0, of "?v la"] obtain h1 L' H' where
      pl: "partition_loop h la (Some (hd as)) (Some (hd as)) None
             = Some (h1, Some (hd (H' @ [la])), (if L' = [] then None else Some (last L')))"
          "as = L' @ H' @ [la]" "same_links h h1"
          "\<forall>a. a \<notin> set xs \<longrightarrow> val_of (eles h1) a = ?v a"
          "mset (vals (eles h1) as) = mset (vals (eles h) as)"
          "\<forall>a\<in>set L'. val_of (eles h1) a < ?v la" "\<forall>a\<in>set H'. \<not> val_of (eles h1) a < ?v la"
      by (auto simp: as[symmetric])
    let ?v1 = "val_of (eles h1)"
    define pv where "pv = ?v la"
    define l where "l = hd (H' @ [la])"
    define G where "G = tl (H' @ [la])"
    have asl: "as = L' @ l # G" unfolding l_def G_def using pl(2) by simp
    have d': "distinct (L' @ l # G)" using dist asl by simp
    have lin: "l \<in> set as" by (subst asl) simp
    have lain: "la \<in> set as" by (subst as) simp
    have lanx: "la \<notin> set xs" using dist unfolding as by simp
    have v1la: "?v1 la = pv" using pl(4) lanx by (simp add: pv_def)
    have p1: "path (eles h1) p0 as z" using p by (simp add: same_links_path[OF pl(3)])
    from path_live[OF p1 lin] obtain le1 where le1: "eles h1 l = Some le1" by auto
    from path_live[OF p1 lain] obtain lae1 where lae1: "eles h1 la = Some lae1" by auto
    from swap_str_spec[OF le1 lae1] obtain h2 where
      h2: "swap_str h1 l la = Some h2" "same_links h1 h2"
          "val_of (eles h2) = (?v1)(l := ?v1 la, la := ?v1 l)"
      by blast
    let ?v2 = "val_of (eles h2)"
    have p2: "path (eles h2) p0 as z" using p1 by (simp add: same_links_path[OF h2(2)])
    have G_cases: "(H' = [] \<and> l = la \<and> G = []) \<or> (H' \<noteq> [] \<and> l = hd H' \<and> G = tl H' @ [la])"
      unfolding l_def G_def by (cases H') simp_all
    have laL: "la \<notin> set L'" "l \<notin> set L'" "l \<notin> set G"
      using dist d' pl(2) by auto
    have v2L: "\<forall>a\<in>set L'. ?v2 a < pv"
      using pl(6) laL by (auto simp: h2(3) pv_def)
    have v2l: "?v2 l = pv" using v1la by (simp add: h2(3))
    have v2G: "\<forall>a\<in>set G. \<not> ?v2 a < pv"
    proof (cases "H' = []")
      case True
      with G_cases show ?thesis by simp
    next
      case False
      with G_cases have g: "l = hd H'" "G = tl H' @ [la]" by simp_all
      from False g(1) have H: "H' = l # tl H'" by simp
      have dH: "distinct (L' @ (l # tl H') @ [la])" using dist pl(2) H by metis
      then have n: "l \<noteq> la" "l \<notin> set (tl H')" "la \<notin> set (tl H')" by auto
      have "\<not> ?v1 l < pv" using pl(7) H unfolding pv_def by (metis list.set_intros(1))
      moreover have "\<forall>a\<in>set (tl H'). \<not> ?v1 a < pv"
        using pl(7) H unfolding pv_def by (metis list.set_intros(2))
      ultimately show ?thesis using n by (auto simp: g(2) h2(3))
    qed
    have ms2: "mset (vals (eles h2) as) = mset (vals (eles h) as)"
      using mset_map_swap[OF dist lin lain, of ?v1] pl(5) by (simp only: vals_def h2(3))
    have fr2: "\<forall>a. a \<notin> set as \<longrightarrow> ?v2 a = ?v a"
    proof (intro allI impI)
      fix a assume a: "a \<notin> set as"
      with lin lain have "a \<noteq> l" "a \<noteq> la" by auto
      moreover from a as have "a \<notin> set xs" by simp
      ultimately show "?v2 a = ?v a" using pl(4) by (simp add: h2(3))
    qed
    \<comment> \<open>the first recursive call\<close>
    have "\<exists>h3. quick_sort h2 (Some (hd as)) (if L' = [] then None else Some (last L')) = Some h3 \<and>
            same_links h2 h3 \<and> (\<forall>a. a \<notin> set L' \<longrightarrow> val_of (eles h3) a = ?v2 a) \<and>
            mset (vals (eles h3) L') = mset (vals (eles h2) L') \<and> sorted (vals (eles h3) L')"
    proof (cases "L' = []")
      case True
      then show ?thesis
        by (simp add: quick_sort_None same_links_refl vals_def)
    next
      case False
      then have hdL: "hd as = hd L'" using asl by (cases L') simp_all
      from p2 asl obtain y where "path (eles h2) p0 L' y" "path (eles h2) y (l # G) z"
        by (metis path_append)
      with path_start[of "eles h2" y "l # G" z] have pL: "path (eles h2) p0 L' (Some l)" by simp
      have len: "length L' < length as" by (subst asl) simp
      have "distinct L'" using d' by simp
      moreover have "Some l \<notin> Some ` set L'" using laL(2) by auto
      ultimately show ?thesis
        using IH[OF len pL False] False hdL by simp
    qed
    then obtain h3 where
      h3: "quick_sort h2 (Some (hd as)) (if L' = [] then None else Some (last L')) = Some h3"
          "same_links h2 h3" "\<forall>a. a \<notin> set L' \<longrightarrow> val_of (eles h3) a = ?v2 a"
          "mset (vals (eles h3) L') = mset (vals (eles h2) L')" "sorted (vals (eles h3) L')"
      by blast
    let ?v3 = "val_of (eles h3)"
    have p3: "path (eles h3) p0 as z" using p2 by (simp add: same_links_path[OF h3(2)])
    from path_next[OF p3[unfolded asl]] obtain le3 where
      le3: "eles h3 l = Some le3" "nextp le3 = (if G = [] then z else Some (hd G))" by auto
    \<comment> \<open>the second recursive call\<close>
    have "\<exists>h4. quick_sort h3 (nextp le3) (Some la) = Some h4 \<and>
            same_links h3 h4 \<and> (\<forall>a. a \<notin> set G \<longrightarrow> val_of (eles h4) a = ?v3 a) \<and>
            mset (vals (eles h4) G) = mset (vals (eles h3) G) \<and> sorted (vals (eles h4) G)"
    proof (cases "G = []")
      case True
      with G_cases have lla: "l = la" by auto
      have "quick_sort h3 (nextp le3) (Some la) = Some h3"
      proof (cases z)
        case None
        with le3(2) True show ?thesis by (simp add: quick_sort_first_None)
      next
        case (Some x)
        with le3 True lla show ?thesis by (simp add: quick_sort_empty_range)
      qed
      with True show ?thesis by (simp add: same_links_refl vals_def)
    next
      case False
      with G_cases have g: "G = tl H' @ [la]" by auto
      then have lastG: "last G = la" by simp
      have "as = (L' @ [l]) @ G" using asl by simp
      with p3 obtain y where pG: "path (eles h3) y G z" by (metis path_append)
      have len: "length G < length as" by (subst asl) simp
      have "distinct G" using d' by simp
      moreover have "z \<notin> Some ` set G" using zn asl by auto
      ultimately show ?thesis
        using IH[OF len pG False] False le3(2) lastG by simp
    qed
    then obtain h4 where
      h4: "quick_sort h3 (nextp le3) (Some la) = Some h4"
          "same_links h3 h4" "\<forall>a. a \<notin> set G \<longrightarrow> val_of (eles h4) a = ?v3 a"
          "mset (vals (eles h4) G) = mset (vals (eles h3) G)" "sorted (vals (eles h4) G)"
      by blast
    let ?v4 = "val_of (eles h4)"
    have res: "quick_sort h (Some (hd as)) (Some (last as)) = Some h4"
      using fla laste zf pl(1) h2(1) h3(1) le3(1) h4(1)
      by (subst quick_sort.simps) (simp add: la_def[symmetric] l_def[symmetric])
    have sl: "same_links h h4"
      using pl(3) h2(2) h3(2) h4(2) by (blast intro: same_links_trans)
    have LG: "set L' \<inter> set G = {}" using d' by auto
    have e4L: "map ?v4 L' = map ?v3 L'" using h4(3) LG by (intro map_cong) auto
    have e3G: "map ?v3 G = map ?v2 G" using h3(3) LG by (intro map_cong) auto
    have v4l: "?v4 l = pv" using h4(3) h3(3) laL v2l by simp
    have s4L: "sorted (map ?v4 L')" using h3(5) by (simp add: vals_def e4L)
    have m4L: "mset (map ?v4 L') = mset (map ?v2 L')" using h3(4) by (simp only: vals_def e4L)
    have m4G: "mset (map ?v4 G) = mset (map ?v2 G)" using h4(4) by (simp only: vals_def e3G)
    have "set (map ?v4 L') = set (map ?v2 L')" using m4L by (rule mset_eq_setD)
    with v2L have b4L: "\<forall>x\<in>set (map ?v4 L'). x < pv" by auto
    have "set (map ?v4 G) = set (map ?v2 G)" using m4G by (rule mset_eq_setD)
    with v2G have b4G: "\<forall>y\<in>set (map ?v4 G). \<not> y < pv" by auto
    have s4G: "sorted (map ?v4 G)" using h4(5) by (simp add: vals_def)
    have so: "sorted (vals (eles h4) as)"
      using sorted_three[OF s4L s4G b4L b4G] by (simp add: vals_def asl v4l)
    have "mset (vals (eles h4) as) = mset (map ?v4 L') + {#?v4 l#} + mset (map ?v4 G)"
      by (simp add: vals_def asl)
    also have "\<dots> = mset (map ?v2 L') + {#?v2 l#} + mset (map ?v2 G)"
      by (simp only: m4L m4G v4l v2l)
    also have "\<dots> = mset (vals (eles h2) as)" by (simp add: vals_def asl)
    finally have ms: "mset (vals (eles h4) as) = mset (vals (eles h) as)" using ms2 by simp
    have fr: "\<forall>a. a \<notin> set as \<longrightarrow> ?v4 a = ?v a"
    proof (intro allI impI)
      fix a assume a: "a \<notin> set as"
      then have "a \<notin> set L'" "a \<notin> set G" using asl by auto
      with h4(3) h3(3) have "?v4 a = ?v2 a" by simp
      with fr2 a show "?v4 a = ?v a" by simp
    qed
    from res sl fr ms so show ?thesis by blast
  qed
qed


lemma q_sort_quick_is_queue:
  assumes "is_queue q h as"
  shows "\<exists>h'. q_sort_with False (Some q) h = Some (Some q, h') \<and> is_queue q h' as \<and>
           same_links h h' \<and> vals (eles h') as = sort (vals (eles h) as) \<and>
           (\<forall>a. a \<notin> set as \<longrightarrow> eles h' a = eles h a)"
proof -
  from assms have p: "path (eles h) (head q) as None"
    and t: "tail q = (if as = [] then None else Some (last as))"
    and n: "sint (qsize q) = int (length as)"
    by (simp_all add: is_queue_def)
  have "\<exists>h'. quick_sort h (head q) (tail q) = Some h' \<and> same_links h h' \<and>
           (\<forall>a. a \<notin> set as \<longrightarrow> val_of (eles h') a = val_of (eles h) a) \<and>
           mset (vals (eles h') as) = mset (vals (eles h) as) \<and> sorted (vals (eles h') as)"
  proof (cases "as = []")
    case True
    with t show ?thesis by (simp add: quick_sort_None same_links_refl vals_def)
  next
    case False
    have "None \<notin> Some ` set as" by auto
    from quick_sort_spec[OF p False path_distinct[OF p] this] path_start[OF p] t False
    show ?thesis by simp
  qed
  then obtain h' where
    h': "quick_sort h (head q) (tail q) = Some h'" "same_links h h'"
        "\<forall>a. a \<notin> set as \<longrightarrow> val_of (eles h') a = val_of (eles h) a"
        "mset (vals (eles h') as) = mset (vals (eles h) as)" "sorted (vals (eles h') as)"
    by blast
  have p': "path (eles h') (head q) as None" using p by (simp add: same_links_path[OF h'(2)])
  from tail_walk_queue[OF p' t refl] t have w: "tail_walk h' (tail q) = Some (tail q)" by simp
  have "q\<lparr>head := head q, tail := tail q\<rparr> = q" by simp
  with h'(1) w have r: "q_sort_with False (Some q) h = Some (Some q, h')"
    by (simp add: q_sort_with_def)
  have iq: "is_queue q h' as" using p' t n by (simp add: is_queue_def)
  have so: "vals (eles h') as = sort (vals (eles h) as)"
    using h'(4,5) by (simp add: properties_for_sort)
  have fr: "\<forall>a. a \<notin> set as \<longrightarrow> eles h' a = eles h a"
    using h'(3) same_links_ele[OF h'(2)] by blast
  from r iq h'(2) so fr show ?thesis by blast
qed

text \<open>
  Claim C4. On a queue that satisfies the invariants both strategies of \<^verbatim>\<open>q_sort\<close>
  return, and the payloads read from head to tail are the same after either: those of
  the queue before, sorted. The partition-based strategy exchanges payloads only: the
  handle, the nodes of the queue in their order and every link are as before. On the
  null reference both change nothing. The function as the file has it takes the merge
  sort.
\<close>

theorem sort_strategies_agree:
  assumes "invariants q h"
  shows "\<exists>qm hm hq. q_sort_with True (Some q) h = Some (Some qm, hm) \<and>
           q_sort_with False (Some q) h = Some (Some q, hq) \<and>
           payloads q hq = payloads qm hm \<and> payloads q hq = sort (payloads q h) \<and>
           invariants qm hm \<and> invariants q hq \<and> nodes q hq = nodes q h \<and> same_links h hq \<and>
           q_sort_with True None h = Some (None, h) \<and> q_sort_with False None h = Some (None, h) \<and>
           q_sort = q_sort_with True"
proof -
  from assms obtain as where q: "is_queue q h as" by (auto simp: invariants_is_queue)
  from q_sort_is_queue[OF q] obtain hm qm bs where
    m: "q_sort (Some q) h = Some (Some qm, hm)" "is_queue qm hm bs"
       "vals (eles hm) bs = sort (vals (eles h) as)"
    by blast
  from q_sort_quick_is_queue[OF q] obtain hq where
    k: "q_sort_with False (Some q) h = Some (Some q, hq)" "is_queue q hq as"
       "same_links h hq" "vals (eles hq) as = sort (vals (eles h) as)"
    by blast
  have 1: "payloads q hq = payloads qm hm"
    by (simp add: is_queue_payloads[OF m(2)] is_queue_payloads[OF k(2)] m(3) k(4))
  have 2: "payloads q hq = sort (payloads q h)"
    by (simp add: is_queue_payloads[OF q] is_queue_payloads[OF k(2)] k(4))
  have 3: "invariants qm hm" "invariants q hq"
    using m(2) k(2) by (auto simp: invariants_is_queue)
  have 4: "nodes q hq = nodes q h" by (simp add: is_queue_nodes[OF q] is_queue_nodes[OF k(2)])
  have 5: "q_sort_with True None h = Some (None, h)" "q_sort_with False None h = Some (None, h)"
    by (simp_all add: q_sort_with_def)
  have 6: "q_sort = q_sort_with True" by (simp add: q_sort_def)
  from m(1)[unfolded q_sort_def] k(1,3) 1 2 3 4 5 6 show ?thesis by blast
qed

theorem sort_strategies_agree_witness:
  "invariants ex_queue ex_heap \<and> payloads ex_queue ex_heap = [''b'', ''a'', ''c''] \<and>
   (\<exists>qm hm hq. q_sort_with True (Some ex_queue) ex_heap = Some (Some qm, hm) \<and>
           q_sort_with False (Some ex_queue) ex_heap = Some (Some ex_queue, hq) \<and>
           payloads ex_queue hq = payloads qm hm \<and> payloads ex_queue hq = [''a'', ''b'', ''c''])"
proof -
  from sort_strategies_agree[OF invariants_q3] obtain qm hm hq where
    "q_sort_with True (Some ex_queue) ex_heap = Some (Some qm, hm)"
    "q_sort_with False (Some ex_queue) ex_heap = Some (Some ex_queue, hq)"
    "payloads ex_queue hq = payloads qm hm" "payloads ex_queue hq = sort (payloads ex_queue ex_heap)"
    by blast
  then show ?thesis
    using invariants_q3 by (auto simp: payloads_q3 sort_bac)
qed

section \<open>The invariants along a sequence of calls\<close>

lemma is_queue_eles: "eles h' = eles h \<Longrightarrow> is_queue q h' as = is_queue q h as"
  by (simp add: is_queue_def)

lemma is_queue_head_live:
  "is_queue q h as \<Longrightarrow> head q = Some a \<Longrightarrow>
     \<exists>e bs. as = a # bs \<and> eles h a = Some e \<and> path (eles h) (nextp e) bs None"
  by (cases as) (auto simp: is_queue_def split: option.splits)

lemma is_queue_tail_live:
  "is_queue q h as \<Longrightarrow> tail q = Some t \<Longrightarrow>
     \<exists>te xs. as = xs @ [t] \<and> eles h t = Some te \<and> nextp te = None \<and>
        path (eles h) (head q) xs (Some t)"
proof -
  assume q: "is_queue q h as" and t: "tail q = Some t"
  then have ne: "as \<noteq> []" and l: "last as = t" by (auto simp: is_queue_def split: if_splits)
  then have as: "as = butlast as @ [t]" by (metis append_butlast_last_id)
  from q have p: "path (eles h) (head q) as None" by (simp add: is_queue_def)
  from path_last_next[OF p ne] l obtain te where te: "eles h t = Some te" "nextp te = None"
    by auto
  from p as obtain z where "path (eles h) (head q) (butlast as) z" "path (eles h) z [t] None"
    by (metis path_append)
  with te as show ?thesis by auto
qed

lemma insert_head_defined:
  assumes "int_of_size (strlen s + 1) \<noteq> 0"
  shows "\<exists>ok qp' h'. q_insert_head (Some q) s h = Some (ok, qp', h')"
  using assms
  by (auto simp: q_insert_head_def Let_def split: prod.splits option.splits bool.splits)

lemma insert_tail_defined:
  assumes "int_of_size (strlen s + 1) \<noteq> 0"
    and "case tail q of None \<Rightarrow> True | Some t \<Rightarrow> eles h t \<noteq> None"
  shows "\<exists>ok q' h'. q_insert_tail (Some q) s h = Some (ok, Some q', h')"
proof -
  obtain r h1 where m: "malloc_ele h = (r, h1)" by (cases "malloc_ele h")
  show ?thesis
  proof (cases r)
    case None
    with m show ?thesis by (auto simp: q_insert_tail_def)
  next
    case (Some a)
    obtain b h2 where s: "malloc_str (int_of_size (Suc (strlen s))) h1 = (b, h2)"
      by (cases "malloc_str (int_of_size (Suc (strlen s))) h1")
    from malloc_ele_Some[OF m[unfolded Some]] malloc_str_eles[OF s]
    have e: "eles h2 = (eles h)(a \<mapsto> \<lparr>valuep = [], nextp = None\<rparr>)" by simp
    show ?thesis
    proof (cases b)
      case False
      with m Some s assms(1) show ?thesis by (auto simp: q_insert_tail_def Let_def)
    next
      case True
      show ?thesis
      proof (cases "tail q")
        case None
        with m Some s True assms(1) show ?thesis by (auto simp: q_insert_tail_def Let_def)
      next
        case (Some t)
        with assms(2) e obtain te where
          "((eles h2)(a \<mapsto> \<lparr>valuep = memcpy s (nat (sint (int_of_size (Suc (strlen s)) - 1))),
               nextp = None\<rparr>)) t = Some te"
          by (cases "t = a") auto
        with m \<open>r = Some a\<close> s True Some assms(1) show ?thesis
          by (auto simp: q_insert_tail_def Let_def)
      qed
    qed
  qed
qed

lemma pushed_is_queue:
  assumes "is_queue q h as" and "eles h a = None" and "int (length as) < INT_MAX"
    and "eles h' = (eles h)(a \<mapsto> \<lparr>valuep = v, nextp = head q\<rparr>)"
  shows "is_queue (if tail q = None then q\<lparr>head := Some a, qsize := qsize q + 1, tail := Some a\<rparr>
                   else q\<lparr>head := Some a, qsize := qsize q + 1\<rparr>) h' (a # as)"
proof -
  from assms(1) have p: "path (eles h) (head q) as None"
    and t: "tail q = (if as = [] then None else Some (last as))"
    and n: "sint (qsize q) = int (length as)"
    by (simp_all add: is_queue_def)
  have "a \<notin> set as" using path_live[OF p] assms(2) by blast
  with p assms(4) have pa: "path (eles h') (Some a) (a # as) None" by simp
  from n assms(3) have "sint (qsize q + 1) = int (length as) + 1"
    using sint_inc[of "qsize q"] by simp
  with pa t show ?thesis by (simp add: is_queue_def)
qed

lemma insert_head_queue:
  assumes "is_queue q h as" "int_of_size (strlen s + 1) \<noteq> 0" "int (length as) < INT_MAX"
  shows "\<exists>ok q' h'. q_insert_head (Some q) s h = Some (ok, Some q', h') \<and>
           (\<exists>bs. is_queue q' h' bs) \<and> sint (qsize q') = sint (qsize q) + (if ok then 1 else 0)"
proof -
  from insert_head_defined[OF assms(2), of q h] obtain ok qp' h' where
    r: "q_insert_head (Some q) s h = Some (ok, qp', h')" by blast
  show ?thesis
  proof (cases ok)
    case False
    from r False have "q_insert_head (Some q) s h = Some (False, qp', h')" by simp
    from insert_head_False[OF this] have u: "qp' = Some q" "eles h' = eles h" by auto
    from assms(1) have "is_queue q h' as" by (simp add: is_queue_eles[OF u(2)])
    then have "\<exists>bs. is_queue q h' bs" ..
    with r False u(1) show ?thesis by auto
  next
    case True
    from r True have "q_insert_head (Some q) s h = Some (True, qp', h')" by simp
    from insert_head_True[OF this] obtain a where
      a: "eles h a = None"
         "qp' = Some (if tail q = None then q\<lparr>head := Some a, qsize := qsize q + 1, tail := Some a\<rparr>
                 else q\<lparr>head := Some a, qsize := qsize q + 1\<rparr>)"
         "eles h' = (eles h)(a \<mapsto> \<lparr>valuep = copied s, nextp = head q\<rparr>)"
      by blast
    define q' where "q' = (if tail q = None
         then q\<lparr>head := Some a, qsize := qsize q + 1, tail := Some a\<rparr>
         else q\<lparr>head := Some a, qsize := qsize q + 1\<rparr>)"
    from pushed_is_queue[OF assms(1) a(1) assms(3) a(3)] have "is_queue q' h' (a # as)"
      by (simp add: q'_def)
    then have 1: "\<exists>bs. is_queue q' h' bs" ..
    from assms(1,3) have "sint (qsize q) < INT_MAX" by (simp add: is_queue_def)
    then have 2: "sint (qsize q') = sint (qsize q) + 1" by (simp add: q'_def sint_inc)
    have 3: "q_insert_head (Some q) s h = Some (True, Some q', h')"
      using r True a(2) by (simp add: q'_def)
    from 1 2 3 show ?thesis by (intro exI[of _ True] exI[of _ q'] exI[of _ h']) simp
  qed
qed

lemma insert_tail_queue:
  assumes "is_queue q h as" "int_of_size (strlen s + 1) \<noteq> 0" "int (length as) < INT_MAX"
  shows "\<exists>ok q' h'. q_insert_tail (Some q) s h = Some (ok, Some q', h') \<and>
           (\<exists>bs. is_queue q' h' bs) \<and> sint (qsize q') = sint (qsize q) + (if ok then 1 else 0)"
proof -
  from assms(1) have p: "path (eles h) (head q) as None"
    and t: "tail q = (if as = [] then None else Some (last as))"
    and n: "sint (qsize q) = int (length as)"
    by (simp_all add: is_queue_def)
  from n assms(3) have n1: "sint (qsize q + 1) = sint (qsize q) + 1"
    using sint_inc[of "qsize q"] by simp
  have "case tail q of None \<Rightarrow> True | Some t \<Rightarrow> eles h t \<noteq> None"
    using is_queue_tail_live[OF assms(1)] by (auto split: option.splits)
  from insert_tail_defined[OF assms(2) this] obtain ok q' h' where
    r: "q_insert_tail (Some q) s h = Some (ok, Some q', h')" by blast
  show ?thesis
  proof (cases ok)
    case False
    from r False have "q_insert_tail (Some q) s h = Some (False, Some q', h')" by simp
    from insert_tail_False[OF this] have u: "q' = q" "eles h' = eles h" by auto
    from assms(1) have "is_queue q h' as" by (simp add: is_queue_eles[OF u(2)])
    then have "\<exists>bs. is_queue q h' bs" ..
    with r False u(1) show ?thesis by auto
  next
    case True
    with r have rt: "q_insert_tail (Some q) s h = Some (True, Some q', h')" by simp
    show ?thesis
    proof (cases "tail q")
      case None
      from insert_tail_True_empty[OF None rt] obtain a where
        a: "q' = q\<lparr>tail := Some a, head := Some a, qsize := qsize q + 1\<rparr>"
           "eles h' = (eles h)(a \<mapsto> \<lparr>valuep = copied s, nextp = None\<rparr>)"
        by auto
      from None t have "as = []" by (simp split: if_splits)
      with a n n1 have "is_queue q' h' [a]" by (simp add: is_queue_def)
      then have 1: "\<exists>bs. is_queue q' h' bs" ..
      have 2: "sint (qsize q') = sint (qsize q) + 1" by (simp add: a(1) n1)
      from 1 2 rt show ?thesis by (intro exI[of _ True] exI[of _ q'] exI[of _ h']) simp
    next
      case (Some tl)
      from is_queue_tail_live[OF assms(1) Some] obtain te xs where
        x: "as = xs @ [tl]" "eles h tl = Some te" "path (eles h) (head q) xs (Some tl)"
        by blast
      from insert_tail_True_live[OF Some x(2) rt] obtain a where
        a: "eles h a = None" "q' = q\<lparr>tail := Some a, qsize := qsize q + 1\<rparr>"
           "eles h' = (eles h)(a \<mapsto> \<lparr>valuep = copied s, nextp = None\<rparr>, tl \<mapsto> te\<lparr>nextp := Some a\<rparr>)"
        by auto
      have na: "a \<notin> set as" using path_live[OF p] a(1) by blast
      have "distinct as" using p by (rule path_distinct)
      with x(1) have nt: "tl \<notin> set xs" by simp
      have ne: "a \<noteq> tl" using na x(1) by auto
      from na x(1) have "a \<notin> set xs" by simp
      with nt x(3) a(3) have "path (eles h') (head q) xs (Some tl)" by simp
      moreover have "path (eles h') (Some tl) [tl, a] None" using a(3) ne by simp
      ultimately have "path (eles h') (head q) (xs @ [tl, a]) None"
        by (metis path_append)
      with n n1 x(1) a(2) have "is_queue q' h' (xs @ [tl, a])" by (simp add: is_queue_def)
      then have 1: "\<exists>bs. is_queue q' h' bs" ..
      have 2: "sint (qsize q') = sint (qsize q) + 1" by (simp add: a(2) n1)
      from 1 2 rt show ?thesis by (intro exI[of _ True] exI[of _ q'] exI[of _ h']) simp
    qed
  qed
qed

lemma remove_head_queue:
  fixes bufsize :: "'w::len word"
  assumes "is_queue q h as" "valid_op (Remove_head sp bufsize)"
  shows "\<exists>ok q' sp' h'. q_remove_head (Some q) sp bufsize h = Some (ok, Some q', sp', h') \<and>
           (\<exists>bs. is_queue q' h' bs) \<and> sint (qsize q') = sint (qsize q) - (if ok then 1 else 0)"
proof (cases "head q = None \<or> sp = None")
  case True
  then have "q_remove_head (Some q) sp bufsize h = Some (False, Some q, sp, h)"
    by (simp add: remove_head_False_iff)
  moreover from assms(1) have "\<exists>bs. is_queue q h bs" ..
  ultimately show ?thesis
    by (intro exI[of _ False] exI[of _ q] exI[of _ sp] exI[of _ h]) simp
next
  case False
  then obtain a buf where a: "head q = Some a" "sp = Some buf" by auto
  from is_queue_head_live[OF assms(1) a(1)] obtain e bs where
    e: "as = a # bs" "eles h a = Some e" "path (eles h) (nextp e) bs None" by blast
  from assms(2) a(2) have nz: "bufsize \<noteq> 0" and le: "unat bufsize \<le> length buf" by simp_all
  from nz have "0 < unat bufsize" by (simp add: unat_gt_0)
  from unat_minus_one_less[OF this] this le have "unat (bufsize - 1) < length buf" by simp
  with remove_head_live[OF a(1) e(2), of buf bufsize]
  have r: "q_remove_head (Some q) sp bufsize h =
      Some (True, Some (dequeued q e), Some (written buf (valuep e) (unat (bufsize - 1))), free_ele a h)"
    by (simp add: a(2))
  from assms(1) have t: "tail q = (if as = [] then None else Some (last as))"
    and n: "sint (qsize q) = int (length as)"
    by (simp_all add: is_queue_def)
  from n e(1) have n1: "sint (qsize q - 1) = int (length bs)"
    using sint_dec[of "qsize q"] by simp
  then have z: "(qsize q - 1 = 0) = (bs = [])"
    using sint_eq_0[of "qsize q - 1"] by simp
  have "a \<notin> set bs" using e(2,3) by (rule path_hd_notin)
  with e(3) have "path (eles (free_ele a h)) (nextp e) bs None" by (simp add: free_ele_def)
  with t n1 z e(1) have "is_queue (dequeued q e) (free_ele a h) bs"
    by (cases bs) (simp_all add: is_queue_def dequeued_def)
  then have 1: "\<exists>bs. is_queue (dequeued q e) (free_ele a h) bs" ..
  have "qsize (dequeued q e) = qsize q - 1" by (simp add: dequeued_def)
  then have 2: "sint (qsize (dequeued q e)) = sint (qsize q) - 1"
    using n n1 e(1) by simp
  from 1 2 r show ?thesis
    by (intro exI[of _ True] exI[of _ "dequeued q e"]
          exI[of _ "Some (written buf (valuep e) (unat (bufsize - 1)))"]
          exI[of _ "free_ele a h"]) simp
qed

lemma step_invariants:
  fixes c :: "'w::len word op"
  assumes "invariants q h" "valid_op c" "is_insert c \<longrightarrow> sint (qsize q) < INT_MAX"
  shows "\<exists>ok q' h'. step c (Some q) h = Some (ok, Some q', h') \<and> invariants q' h' \<and>
           sint (qsize q') = sint (qsize q) + (if is_insert c \<and> ok then 1 else 0)
                              - (if is_remove c \<and> ok then 1 else 0)"
proof -
  from assms(1) obtain as where q: "is_queue q h as" by (auto simp: invariants_is_queue)
  then have n: "sint (qsize q) = int (length as)" by (simp add: is_queue_def)
  show ?thesis
  proof (cases c)
    case (Insert_head s)
    with assms(2,3) n have "int_of_size (strlen s + 1) \<noteq> 0" "int (length as) < INT_MAX"
      by simp_all
    from insert_head_queue[OF q this] Insert_head show ?thesis
      by (auto simp: invariants_is_queue)
  next
    case (Insert_tail s)
    with assms(2,3) n have "int_of_size (strlen s + 1) \<noteq> 0" "int (length as) < INT_MAX"
      by simp_all
    from insert_tail_queue[OF q this] Insert_tail show ?thesis
      by (auto simp: invariants_is_queue)
  next
    case (Remove_head sp bufsize)
    from remove_head_queue[OF q assms(2)[unfolded Remove_head]] obtain ok q' sp' h' where
      "q_remove_head (Some q) sp bufsize h = Some (ok, Some q', sp', h')"
      "\<exists>bs. is_queue q' h' bs" "sint (qsize q') = sint (qsize q) - (if ok then 1 else 0)"
      by blast
    with Remove_head show ?thesis
      by (intro exI[of _ ok] exI[of _ q'] exI[of _ h']) (simp add: invariants_is_queue)
  next
    case Reverse
    from q_reverse_is_queue[OF q] obtain h' where
      "q_reverse (Some q) h = Some (Some (q\<lparr>tail := head q, head := tail q\<rparr>), h')"
      "is_queue (q\<lparr>tail := head q, head := tail q\<rparr>) h' (rev as)"
      by blast
    with Reverse show ?thesis
      by (intro exI[of _ True] exI[of _ "q\<lparr>tail := head q, head := tail q\<rparr>"] exI[of _ h'])
         (auto simp: invariants_is_queue)
  next
    case Sort
    from q_sort_is_queue[OF q] obtain h' q' bs where
      s: "q_sort (Some q) h = Some (Some q', h')" "is_queue q' h' bs" "mset bs = mset as"
      by blast
    from q s(2) mset_eq_length[OF s(3)] have "sint (qsize q') = sint (qsize q)"
      by (simp add: is_queue_def)
    with Sort s(1,2) show ?thesis
      by (intro exI[of _ True] exI[of _ q'] exI[of _ h']) (auto simp: invariants_is_queue)
  qed
qed

lemma sint_qsize_nonneg: "invariants q h \<Longrightarrow> 0 \<le> sint (qsize q)"
  by (auto simp: invariants_is_queue is_queue_def)

lemma run_invariants:
  fixes ops :: "'w::len word op list"
  assumes "invariants q h" "list_all valid_op ops" and "no_overflow ops (Some q) h"
  shows "\<exists>tr. run ops (Some q) h = Some tr \<and> length tr = length ops \<and> all_invariants tr \<and>
           last_size q tr
             = sint (qsize q) + successes is_insert ops tr - successes is_remove ops tr"
  using assms
proof (induction ops arbitrary: q h)
  case Nil
  then show ?case by (simp add: q_size_def)
next
  case (Cons c cs)
  from Cons.prems(2) have v: "valid_op c" "list_all valid_op cs" by simp_all
  from Cons.prems(3) have b: "is_insert c \<longrightarrow> sint (qsize q) < INT_MAX"
    by (simp add: q_size_def)
  from step_invariants[OF Cons.prems(1) v(1) b] obtain ok q' h' where
    s: "step c (Some q) h = Some (ok, Some q', h')" "invariants q' h'"
       "sint (qsize q') = sint (qsize q) + (if is_insert c \<and> ok then 1 else 0)
                          - (if is_remove c \<and> ok then 1 else 0)"
    by blast
  from Cons.prems(3) s(1) have "no_overflow cs (Some q') h'" by simp
  from Cons.IH[OF s(2) v(2) this] obtain tr where
    t: "run cs (Some q') h' = Some tr" "length tr = length cs" "all_invariants tr"
       "last_size q' tr
          = sint (qsize q') + successes is_insert cs tr - successes is_remove cs tr"
    by blast
  let ?tr = "(ok, Some q', h') # tr"
  have "run (c # cs) (Some q) h = Some ?tr" using s(1) t(1) by simp
  moreover have "length ?tr = length (c # cs)" using t(2) by simp
  moreover have "all_invariants ?tr" using s(2) t(3) by simp
  moreover have "last_size q ?tr
      = sint (qsize q) + successes is_insert (c # cs) ?tr - successes is_remove (c # cs) ?tr"
    using s(3) t(4) by simp
  ultimately show ?case by blast
qed

text \<open>A sequence with at most \<^verbatim>\<open>INT_MAX\<close> insertions never reaches that size.\<close>

lemma calls_no_overflow:
  fixes ops :: "'w::len word op list"
  assumes "invariants q h" "list_all valid_op ops"
    and "sint (qsize q) + calls is_insert ops \<le> INT_MAX"
  shows "no_overflow ops (Some q) h"
  using assms
proof (induction ops arbitrary: q h)
  case Nil
  show ?case by simp
next
  case (Cons c cs)
  from Cons.prems(2) have v: "valid_op c" "list_all valid_op cs" by simp_all
  have k: "calls is_insert (c # cs) = (if is_insert c then 1 else 0) + calls is_insert cs"
    "0 \<le> calls is_insert cs"
    by (simp_all add: calls_def)
  with Cons.prems(3) have b: "is_insert c \<longrightarrow> sint (qsize q) < INT_MAX" by auto
  from step_invariants[OF Cons.prems(1) v(1) b] obtain ok q' h' where
    s: "step c (Some q) h = Some (ok, Some q', h')" "invariants q' h'"
       "sint (qsize q') = sint (qsize q) + (if is_insert c \<and> ok then 1 else 0)
                          - (if is_remove c \<and> ok then 1 else 0)"
    by blast
  from s(3) k Cons.prems(3) have "sint (qsize q') + calls is_insert cs \<le> INT_MAX"
    by (auto split: if_splits)
  from Cons.IH[OF s(2) v(2) this] have "no_overflow cs (Some q') h'" .
  with b s(1) show ?case by (simp add: q_size_def)
qed

lemma q_new_Some: "q_new h0 = (Some q0, h1) \<Longrightarrow> q0 = empty_queue"
  by (auto simp: q_new_def empty_queue_def split: prod.splits bool.splits)

lemma invariants_empty: "invariants empty_queue h"
  by (simp add: invariants_def I1_def I2_def I3_def nodes_def empty_queue_def)

subsection \<open>The count at \<^verbatim>\<open>INT_MAX\<close>\<close>

lemma fresh_blocks_Suc: "fresh_blocks k (Suc m) = Some k # Some k # fresh_blocks (Suc k) m"
  by (simp add: fresh_blocks_def upt_conv_Cons)

lemma insert_head_fresh:
  assumes "mallocs h = Some k # Some k # ms" and "eles h k = None"
  shows "q_insert_head (Some q) [] h =
     Some (True,
       Some (if tail q = None then q\<lparr>head := Some k, qsize := qsize q + 1, tail := Some k\<rparr>
             else q\<lparr>head := Some k, qsize := qsize q + 1\<rparr>),
       h\<lparr>eles := (eles h)(k \<mapsto> \<lparr>valuep = [], nextp = head q\<rparr>), mallocs := ms\<rparr>)"
  using assms
  by (simp add: q_insert_head_def malloc_ele_def malloc_str_def strlen_def int_of_size_def
      memcpy_def Let_def)

lemma many_inserts_overflow:
  fixes q :: queue_t
  assumes "is_queue q h as" and "\<forall>a\<ge>k. eles h a = None" and "mallocs h = fresh_blocks k m"
    and "int (length as) + int m = INT_MAX + 1" and "0 < m"
  shows "\<exists>tr. run (replicate m (Insert_head []) :: 'w::len word op list) (Some q) h = Some tr \<and>
           successes is_insert (replicate m (Insert_head []) :: 'w word op list) tr = int m \<and>
           last_size q tr = - INT_MAX - 1 \<and> \<not> all_invariants tr"
  using assms
proof (induction m arbitrary: q h as k)
  case 0
  then show ?case by simp
next
  case (Suc m)
  let ?q1 = "if tail q = None then q\<lparr>head := Some k, qsize := qsize q + 1, tail := Some k\<rparr>
             else q\<lparr>head := Some k, qsize := qsize q + 1\<rparr>"
  let ?h1 = "h\<lparr>eles := (eles h)(k \<mapsto> \<lparr>valuep = [], nextp = head q\<rparr>),
               mallocs := fresh_blocks (Suc k) m\<rparr>"
  from Suc.prems(2) have f: "eles h k = None" by simp
  from Suc.prems(3) have "mallocs h = Some k # Some k # fresh_blocks (Suc k) m"
    by (simp add: fresh_blocks_Suc)
  from insert_head_fresh[OF this f]
  have s: "q_insert_head (Some q) [] h = Some (True, Some ?q1, ?h1)" .
  from Suc.prems(1) have n: "sint (qsize q) = int (length as)" by (simp add: is_queue_def)
  show ?case
  proof (cases "m = 0")
    case True
    with Suc.prems(4) n have "sint (qsize q) = INT_MAX" by simp
    then have "sint (qsize q + 1) = - INT_MAX - 1" by (rule sint_inc_max)
    then have o: "sint (qsize ?q1) = - INT_MAX - 1" by simp
    then have "nodes ?q1 ?h1 = None" unfolding nodes_def by (simp add: INT_MAX_def)
    then have i: "\<not> invariants ?q1 ?h1" by (simp add: invariants_def I2_def)
    let ?tr = "[(True, Some ?q1, ?h1)]"
    have "run (replicate (Suc m) (Insert_head []) :: 'w word op list) (Some q) h = Some ?tr"
      using s True by simp
    moreover have
      "successes is_insert (replicate (Suc m) (Insert_head []) :: 'w word op list) ?tr
         = int (Suc m)"
      using True by simp
    moreover have "last_size q ?tr = - INT_MAX - 1" using o by (simp add: q_size_def)
    moreover have "\<not> all_invariants ?tr" using i by simp
    ultimately show ?thesis by blast
  next
    case False
    with Suc.prems(4) have l: "int (length as) < INT_MAX" by simp
    have e: "eles ?h1 = (eles h)(k \<mapsto> \<lparr>valuep = [], nextp = head q\<rparr>)" by simp
    from pushed_is_queue[OF Suc.prems(1) f l e] have 1: "is_queue ?q1 ?h1 (k # as)" .
    from Suc.prems(2) have 2: "\<forall>a\<ge>Suc k. eles ?h1 a = None" by simp
    have 3: "mallocs ?h1 = fresh_blocks (Suc k) m" by simp
    from Suc.prems(4) have 4: "int (length (k # as)) + int m = INT_MAX + 1" by simp
    from False have 5: "0 < m" by simp
    from Suc.IH[OF 1 2 3 4 5] obtain tr where
      t: "run (replicate m (Insert_head []) :: 'w word op list) (Some ?q1) ?h1 = Some tr"
         "successes is_insert (replicate m (Insert_head []) :: 'w word op list) tr = int m"
         "last_size ?q1 tr = - INT_MAX - 1" "\<not> all_invariants tr"
      by blast
    let ?tr = "(True, Some ?q1, ?h1) # tr"
    have "run (replicate (Suc m) (Insert_head []) :: 'w word op list) (Some q) h = Some ?tr"
      using s t(1) by simp
    moreover have
      "successes is_insert (replicate (Suc m) (Insert_head []) :: 'w word op list) ?tr
         = int (Suc m)"
      using t(2) by simp
    moreover have "last_size q ?tr = - INT_MAX - 1" using t(3) by simp
    moreover have "\<not> all_invariants ?tr" using t(4) by simp
    ultimately show ?thesis by blast
  qed
qed

lemma many_inserts_run:
  "\<exists>tr. run many_inserts (Some empty_queue) (heap_of [] (fresh_blocks 0 2147483648)) = Some tr \<and>
      successes is_insert many_inserts tr = 2147483648 \<and>
      last_size empty_queue tr = - 2147483648 \<and> \<not> all_invariants tr"
proof -
  have 1: "is_queue empty_queue (heap_of [] (fresh_blocks 0 2147483648)) []"
    by (simp add: is_queue_def empty_queue_def heap_of_def)
  have 2: "\<forall>a\<ge>0. eles (heap_of [] (fresh_blocks 0 2147483648)) a = None"
    by (simp add: heap_of_def)
  have 3: "mallocs (heap_of [] (fresh_blocks 0 2147483648)) = fresh_blocks 0 2147483648"
    by (simp add: heap_of_def)
  have 4: "int (length ([] :: addr list)) + int 2147483648 = INT_MAX + 1"
    by (simp add: INT_MAX_def)
  have 5: "(0 :: nat) < 2147483648" by simp
  from many_inserts_overflow[OF 1 2 3 4 5, where 'w = 64] show ?thesis
    unfolding many_inserts_def INT_MAX_def by simp
qed

lemma no_removes: "list_all is_insert cs \<Longrightarrow> successes is_remove cs tr = 0"
proof (induction cs arbitrary: tr)
  case Nil
  show ?case by simp
next
  case (Cons c cs)
  then have "\<not> is_remove c" by (cases c) simp_all
  with Cons show ?case by (cases tr) auto
qed

lemma valid_many_inserts: "list_all valid_op many_inserts"
  unfolding many_inserts_def list_all_length
  by (simp add: strlen_def int_of_size_def)

lemma calls_many_inserts: "calls is_insert many_inserts = 2147483648"
  unfolding many_inserts_def calls_def by simp

lemma strlen_wrap_string: "strlen wrap_string = 4294967295"
  unfolding wrap_string_def by (rule strlen_replicate) (simp add: NUL_def)

text \<open>
  Claim C1, amended. From a freshly constructed queue, every sequence of calls of
  \<^verbatim>\<open>q_insert_head\<close>, \<^verbatim>\<open>q_insert_tail\<close>, \<^verbatim>\<open>q_remove_head\<close>, \<^verbatim>\<open>q_reverse\<close> and
  \<^verbatim>\<open>q_sort\<close> in which no insertion is called when the size is \<^verbatim>\<open>INT_MAX\<close> (with
  strings whose length plus 1 is not 0 as an \<^verbatim>\<open>int\<close>, and buffers of at least
  \<open>bufsize \<ge> 1\<close> bytes) runs to its end, and after every call the invariants hold:
  the size is 0 iff the head is null iff the tail is null; the chain from the head has
  exactly size nodes, the last of which is the tail, whose link is null; no node occurs
  twice in it. The final size, as \<^verbatim>\<open>q_size\<close> returns it, is the number of successful
  insertions minus the number of successful removals.
\<close>

theorem queue_invariants_preserved:
  fixes ops :: "'w::len word op list"
  assumes "q_new h0 = (Some q0, h1)" and "list_all valid_op ops"
    and "no_overflow ops (Some q0) h1"
  shows "\<exists>tr. run ops (Some q0) h1 = Some tr \<and> length tr = length ops \<and>
           invariants q0 h1 \<and> all_invariants tr \<and>
           last_size q0 tr = successes is_insert ops tr - successes is_remove ops tr"
proof -
  from q_new_Some[OF assms(1)] have q0: "q0 = empty_queue" .
  have i: "invariants q0 h1" unfolding q0 by (rule invariants_empty)
  from run_invariants[OF i assms(2,3)] i show ?thesis
    by (auto simp: q0 empty_queue_def)
qed

theorem queue_invariants_preserved_witness:
  "q_new (heap_of [] [Some 0, Some 1, Some 1, Some 2, Some 2, None])
     = (Some empty_queue, heap_of [] [Some 1, Some 1, Some 2, Some 2, None]) \<and>
   list_all valid_op
     [Insert_tail ''b'', Insert_head ''a'', Insert_head ''c'', Sort, Reverse,
      Remove_head (Some ''xxxx'') (4 :: 64 word), Remove_head None 0] \<and>
   no_overflow
     [Insert_tail ''b'', Insert_head ''a'', Insert_head ''c'', Sort, Reverse,
      Remove_head (Some ''xxxx'') (4 :: 64 word), Remove_head None 0]
     (Some empty_queue) (heap_of [] [Some 1, Some 1, Some 2, Some 2, None]) \<and>
   (\<exists>tr. run [Insert_tail ''b'', Insert_head ''a'', Insert_head ''c'', Sort, Reverse,
               Remove_head (Some ''xxxx'') (4 :: 64 word), Remove_head None 0]
              (Some empty_queue) (heap_of [] [Some 1, Some 1, Some 2, Some 2, None]) = Some tr \<and>
      length tr = 7 \<and> all_invariants tr \<and>
      last_size empty_queue tr
        = successes is_insert [Insert_tail ''b'', Insert_head ''a'', Insert_head ''c'', Sort,
            Reverse, Remove_head (Some ''xxxx'') (4 :: 64 word), Remove_head None 0] tr
          - successes is_remove [Insert_tail ''b'', Insert_head ''a'', Insert_head ''c'', Sort,
            Reverse, Remove_head (Some ''xxxx'') (4 :: 64 word), Remove_head None 0] tr)"
proof -
  have n: "q_new (heap_of [] [Some 0, Some 1, Some 1, Some 2, Some 2, None])
     = (Some empty_queue, heap_of [] [Some 1, Some 1, Some 2, Some 2, None])"
    by (simp add: q_new_def malloc_queue_def heap_of_def empty_queue_def)
  have v: "list_all valid_op
     [Insert_tail ''b'', Insert_head ''a'', Insert_head ''c'', Sort, Reverse,
      Remove_head (Some ''xxxx'') (4 :: 64 word), Remove_head None 0]"
    by (simp add: strlen_def NUL_def int_of_size_def)
  have "sint (qsize empty_queue) + calls is_insert
     [Insert_tail ''b'', Insert_head ''a'', Insert_head ''c'', Sort, Reverse,
      Remove_head (Some ''xxxx'') (4 :: 64 word), Remove_head None 0] \<le> INT_MAX"
    by (simp add: calls_def INT_MAX_def empty_queue_def)
  from calls_no_overflow[OF invariants_empty v this]
  have c: "no_overflow
     [Insert_tail ''b'', Insert_head ''a'', Insert_head ''c'', Sort, Reverse,
      Remove_head (Some ''xxxx'') (4 :: 64 word), Remove_head None 0]
     (Some empty_queue) (heap_of [] [Some 1, Some 1, Some 2, Some 2, None])" .
  from queue_invariants_preserved[OF n v c] n v c show ?thesis
    by auto
qed

text \<open>
  Claim C1, as stated, fails in two ways. It counts the inserts: a call of
  \<^verbatim>\<open>q_insert_head\<close> whose allocation fails returns false and leaves the size at 0, while
  the number of insert calls minus the number of successful removals is 1 (the
  invariants hold there). And the size is an \<^verbatim>\<open>int\<close>: from a fresh queue, \<open>2 ^ 31\<close>
  insertions of the empty string that all succeed leave the size at \<open>- 2 ^ 31\<close>, which
  is neither the number of inserts nor the number of nodes of the chain, so that the
  invariants do not hold after the last call. Outside the arguments that the amended
  claim allows a call has no defined result: the insertion of a string of \<open>2 ^ 32 - 1\<close>
  bytes when both allocations succeed, a removal with the capacity 0, and a removal
  into a buffer of fewer bytes than the capacity.
\<close>

theorem size_not_inserts_minus_removes:
  "q_new (heap_of [] [Some 0]) = (Some empty_queue, heap_of [] []) \<and>
   run [Insert_head ''a'' :: 64 word op] (Some empty_queue) (heap_of [] [])
     = Some [(False, Some empty_queue, heap_of [] [])] \<and>
   all_invariants [(False, Some empty_queue, heap_of [] [])] \<and>
   last_size empty_queue [(False, Some empty_queue, heap_of [] [])] = 0 \<and>
   calls is_insert [Insert_head ''a'' :: 64 word op]
     - successes is_remove [Insert_head ''a'' :: 64 word op]
         [(False, Some empty_queue, heap_of [] [])] = 1 \<and>
   q_new (heap_of [] (Some 0 # fresh_blocks 0 2147483648))
     = (Some empty_queue, heap_of [] (fresh_blocks 0 2147483648)) \<and>
   list_all valid_op many_inserts \<and> calls is_insert many_inserts = 2147483648 \<and>
   map_option (\<lambda>tr. (successes is_insert many_inserts tr, successes is_remove many_inserts tr,
                      last_size empty_queue tr, all_invariants tr))
      (run many_inserts (Some empty_queue) (heap_of [] (fresh_blocks 0 2147483648)))
     = Some (2147483648, 0, - 2147483648, False) \<and>
   run [Insert_head wrap_string :: 64 word op] (Some empty_queue) (heap_of [] [Some 1, Some 1])
     = None \<and>
   run [Insert_head ''a'', Remove_head (Some ''xx'') (0 :: 64 word)] (Some empty_queue)
       (heap_of [] [Some 1, Some 1])
     = None \<and>
   run [Insert_head ''a'', Remove_head (Some ''xx'') (8 :: 64 word)] (Some empty_queue)
       (heap_of [] [Some 1, Some 1])
     = None"
proof -
  have 1: "q_new (heap_of [] [Some 0]) = (Some empty_queue, heap_of [] []) \<and>
     run [Insert_head ''a'' :: 64 word op] (Some empty_queue) (heap_of [] [])
       = Some [(False, Some empty_queue, heap_of [] [])] \<and>
     all_invariants [(False, Some empty_queue, heap_of [] [])] \<and>
     last_size empty_queue [(False, Some empty_queue, heap_of [] [])] = 0 \<and>
     calls is_insert [Insert_head ''a'' :: 64 word op]
       - successes is_remove [Insert_head ''a'' :: 64 word op]
           [(False, Some empty_queue, heap_of [] [])] = 1"
    by (simp add: q_new_def malloc_queue_def heap_of_def empty_queue_def q_insert_head_def
        malloc_ele_def calls_def invariants_def I1_def I2_def I3_def nodes_def q_size_def)
  have 2: "q_new (heap_of [] (Some 0 # fresh_blocks 0 2147483648))
     = (Some empty_queue, heap_of [] (fresh_blocks 0 2147483648))"
    by (simp add: q_new_def malloc_queue_def heap_of_def empty_queue_def)
  from many_inserts_run obtain tr where
    t: "run many_inserts (Some empty_queue) (heap_of [] (fresh_blocks 0 2147483648)) = Some tr"
       "successes is_insert many_inserts tr = 2147483648"
       "last_size empty_queue tr = - 2147483648" "\<not> all_invariants tr"
    by blast
  have "list_all is_insert many_inserts"
    unfolding many_inserts_def list_all_length by simp
  then have r: "successes is_remove many_inserts tr = 0" by (rule no_removes)
  have 3: "map_option (\<lambda>tr. (successes is_insert many_inserts tr,
                      successes is_remove many_inserts tr,
                      last_size empty_queue tr, all_invariants tr))
      (run many_inserts (Some empty_queue) (heap_of [] (fresh_blocks 0 2147483648)))
     = Some (2147483648, 0, - 2147483648, False)"
    using t r by simp
  have 4: "run [Insert_head wrap_string :: 64 word op] (Some empty_queue)
       (heap_of [] [Some 1, Some 1]) = None"
    by (simp add: q_insert_head_def malloc_ele_def malloc_str_def heap_of_def empty_queue_def
        strlen_wrap_string int_of_size_def Let_def)
  have i: "q_insert_head (Some empty_queue) ''a'' (heap_of [] [Some 1, Some 1])
     = Some (True, Some \<lparr>head = Some 1, tail = Some 1, qsize = 1\<rparr>,
         heap_of [(1, ele ''a'' None)] [])"
    by (simp add: q_insert_head_def malloc_ele_def malloc_str_def heap_of_def ele_def
        empty_queue_def strlen_def NUL_def int_of_size_def memcpy_def Let_def)
  have "unat ((0 :: 64 word) - 1) = 18446744073709551615"
    by (simp add: unsigned_minus_1_eq_mask mask_eq_exp_minus_1)
  then have "q_remove_head (Some \<lparr>head = Some 1, tail = Some 1, qsize = 1\<rparr>) (Some ''xx'')
       (0 :: 64 word) (heap_of [(1, ele ''a'' None)] []) = None"
    using remove_head_live[of "\<lparr>head = Some 1, tail = Some 1, qsize = 1\<rparr>" 1
        "heap_of [(1, ele ''a'' None)] []" "ele ''a'' None" "''xx''" "0 :: 64 word"]
    by (simp add: heap_of_def ele_def)
  with i have 5: "run [Insert_head ''a'', Remove_head (Some ''xx'') (0 :: 64 word)]
       (Some empty_queue) (heap_of [] [Some 1, Some 1]) = None"
    by simp
  have "q_remove_head (Some \<lparr>head = Some 1, tail = Some 1, qsize = 1\<rparr>) (Some ''xx'')
       (8 :: 64 word) (heap_of [(1, ele ''a'' None)] []) = None"
    using remove_head_live[of "\<lparr>head = Some 1, tail = Some 1, qsize = 1\<rparr>" 1
        "heap_of [(1, ele ''a'' None)] []" "ele ''a'' None" "''xx''" "8 :: 64 word"]
    by (simp add: heap_of_def ele_def)
  with i have 6: "run [Insert_head ''a'', Remove_head (Some ''xx'') (8 :: 64 word)]
       (Some empty_queue) (heap_of [] [Some 1, Some 1]) = None"
    by simp
  from 1 2 3 4 5 6 valid_many_inserts calls_many_inserts show ?thesis by simp
qed

section \<open>The model on concrete queues\<close>

text \<open>
  The loops are defined by their recursion equations; as code equations they evaluate
  the functions on concrete stores.
\<close>

declare reverse_loop.simps [code] partition_loop.simps [code] quick_sort.simps [code]
  find_half.simps [code] merge_loop.simps [code] merge_sort.simps [code] tail_walk.simps [code]

lemma q_sort_q3:
  "read_back (q_sort (Some ex_queue) ex_heap)
     = Some (\<lparr>head = Some 2, tail = Some 3, qsize = 3\<rparr>, [''a'', ''b'', ''c''])"
  by code_simp

lemma q_sort_quick_q3:
  "read_back (q_sort_with False (Some ex_queue) ex_heap) = Some (ex_queue, [''a'', ''b'', ''c''])"
  by code_simp

lemma q_reverse_q3:
  "read_back (q_reverse (Some ex_queue) ex_heap)
     = Some (\<lparr>head = Some 3, tail = Some 1, qsize = 3\<rparr>, [''c'', ''a'', ''b''])"
  by code_simp

text \<open>
  The scenarios of the specification: "banana", "apple", "cherry" inserted at the
  tail and sorted read "apple", "banana", "cherry"; "a" and "b" inserted at the head and
  reversed are removed as "a", then "b".
\<close>

lemma scenario_sort:
  "final_payloads
     (run [Insert_tail ''banana'', Insert_tail ''apple'', Insert_tail ''cherry'', Sort :: 64 word op]
        (Some empty_queue) (heap_of [] (map Some [1, 1, 2, 2, 3, 3])))
   = Some [''apple'', ''banana'', ''cherry'']"
  by code_simp

lemma scenario_reverse:
  "reverse_scenario (heap_of [] (map Some [1, 1, 2, 2])) = Some (''a'', ''b'')"
  by code_simp

end
